theory Spec2Isabelle
  imports Main "HOL-Library.Word"
begin

unbundle bit_operations_syntax

section \<open>The compact Cuckoo table of \<^verbatim>\<open>include/cuckoo.cuh\<close>\<close>

text \<open>
  Unsigned machine integers are natural numbers with the truncation of their type written
  out (\<open>take_bit w\<close> is reduction modulo \<open>2 ^ w\<close>). The slab is a store from row offsets
  (relative to the pointer \<open>rows\<close>) to row values.

  The class template has the parameters \<open>row_type\<close> (here its width in bits,
  \<open>row_width\<close>; the tables are instantiated with the unsigned types of 32 and 64 bits),
  \<open>bucket_size\<close>, \<open>Permute\<close> (here the two functions \<open>permute\<close> and \<open>permute_inv\<close>)
  and \<open>n_hash_functions\<close>.

  Three widths come from headers that are not part of the sources at hand and are
  parameters of the model: \<open>key_bits\<close> (the width of \<open>key_type\<close>), \<open>addr_bits\<close> (the
  width of \<open>addr_type\<close>) and \<open>shift_bits\<close> (the width of the unsigned type in which
  \<open>hash_key\<close> evaluates \<open>rem << addr_width\<close>, i.e. of the value of
  \<open>row & mask<row_type>(rem_width)\<close>).
\<close>

type_synonym key = nat
type_synonym row = nat
type_synonym store = "nat \<Rightarrow> row"

record cuckoo =
  permute :: "nat \<Rightarrow> key \<Rightarrow> key"
  permute_inv :: "nat \<Rightarrow> key \<Rightarrow> key"
  n_hash_functions :: nat
  bucket_size :: nat
  row_width :: nat
  addr_width :: nat
  rem_width :: nat
  n_rows :: nat
  state_width :: nat
  key_bits :: nat
  addr_bits :: nat
  shift_bits :: nat

datatype Result = FOUND | PUT | FULL

text \<open>\<open>std::bit_width\<close>: the number of bits needed to write \<open>n\<close>.\<close>

fun bit_width :: "nat \<Rightarrow> nat" where
  "bit_width n = (if n = 0 then 0 else Suc (bit_width (n div 2)))"

declare bit_width.simps [simp del]

text \<open>
  Modelled from the spec: \<open>mask<T>(w)\<close> of \<^verbatim>\<open>bits.h\<close> (a bit mask), the value of type
  \<open>T\<close> (of \<open>bits\<close> bits) whose low \<open>w\<close> bits are set.
\<close>

definition mask_of :: "nat \<Rightarrow> nat \<Rightarrow> nat" where
  "mask_of bits w = take_bit bits (mask w)"

text \<open>\<open>max_chain_length = 20 * n_hash_functions\<close>.\<close>

definition max_chain_length :: "cuckoo \<Rightarrow> nat" where
  "max_chain_length c = 20 * n_hash_functions c"

text \<open>
  \<open>addr_row\<close>: the permuted key is a \<open>key_type\<close> value; the address is converted to
  \<open>addr_type\<close>; the state \<open>hash_id + 1\<close> is shifted as a \<open>row_type\<close> value, and the row
  is converted to \<open>row_type\<close> when the pair is built.
\<close>

definition addr_row :: "cuckoo \<Rightarrow> nat \<Rightarrow> key \<Rightarrow> nat \<times> row" where
  "addr_row c hash_id k =
     (let pk = take_bit (key_bits c) (permute c hash_id k);
          addr = take_bit (addr_bits c) (pk AND mask_of (key_bits c) (addr_width c));
          rem = drop_bit (addr_width c) pk
      in (addr,
          take_bit (row_width c)
            (take_bit (row_width c)
               (push_bit (row_width c - state_width c) (take_bit (row_width c) (hash_id + 1)))
             OR rem)))"

text \<open>
  \<open>hash_key\<close>: \<open>None\<close> when one of the two assertions fails. The subtraction
  \<open>(row >> (row_width - state_width)) - 1\<close> is unsigned and wraps; the hash id is
  returned as a \<open>uint8_t\<close>.
\<close>

definition hash_key :: "cuckoo \<Rightarrow> nat \<Rightarrow> row \<Rightarrow> (nat \<times> key) option" where
  "hash_key c addr row =
     (if row = 0 then None
      else
        let hash_id = (drop_bit (row_width c - state_width c) row + 2 ^ row_width c - 1)
                        mod 2 ^ row_width c
        in if \<not> hash_id < n_hash_functions c then None
           else
             let rem = row AND mask_of (row_width c) (rem_width c);
                 pk = take_bit (shift_bits c) (push_bit (addr_width c) rem) OR addr
             in Some (take_bit 8 hash_id, permute_inv c hash_id pk))"

text \<open>\<open>clear\<close>: \<open>thrust::fill(rows, rows + n_rows, 0)\<close>.\<close>

definition clear :: "cuckoo \<Rightarrow> store \<Rightarrow> store" where
  "clear c rows = (\<lambda>j. if j < n_rows c then 0 else rows j)"

text \<open>
  The constructor. \<open>rem_width\<close> is a \<open>uint8_t\<close> difference, \<open>n_rows\<close> a \<open>size_t\<close>
  product in which \<open>sizeof(*rows)\<close> is \<open>row_width div 8\<close>; \<open>None\<close> when the assertion
  on the row width fails. \<open>mem\<close> is the content of the freshly allocated slab.
\<close>

definition Cuckoo ::
  "(nat \<Rightarrow> key \<Rightarrow> key) \<Rightarrow> (nat \<Rightarrow> key \<Rightarrow> key) \<Rightarrow> nat \<Rightarrow> nat \<Rightarrow> nat \<Rightarrow> nat \<Rightarrow> nat \<Rightarrow> nat \<Rightarrow>
   nat \<Rightarrow> nat \<Rightarrow> store \<Rightarrow> (cuckoo \<times> store) option" where
  "Cuckoo p pinv H B rw kb ab sb keyw addrw mem =
     (let c = \<lparr> permute = p, permute_inv = pinv, n_hash_functions = H, bucket_size = B,
                 row_width = rw, addr_width = addrw,
                 rem_width = (keyw + 256 - addrw) mod 256,
                 n_rows = (2 ^ addrw * (rw div 8) * B) mod 2 ^ 64,
                 state_width = bit_width H,
                 key_bits = kb, addr_bits = ab, shift_bits = sb \<rparr>
      in if \<not> (rw div 8) * 8 \<ge> state_width c + rem_width c then None
         else Some (c, clear c mem))"

text \<open>The width \<open>W\<close> of the keys of a table.\<close>

definition key_width :: "cuckoo \<Rightarrow> nat" where
  "key_width c = addr_width c + rem_width c"

text \<open>
  Well-formed tables: the template and constructor parameters are as the class demands
  (\<open>n_hash_functions\<close> is a nonzero \<open>uint8_t\<close>, the bucket size divides the warp size,
  the row is wide enough for state and remainder), the integer types are wide enough for
  the values they hold, and \<open>permute_inv i\<close> inverts \<open>permute i\<close> on the universe
  \<open>[0, 2 ^ W)\<close>.
\<close>

definition wf :: "cuckoo \<Rightarrow> bool" where
  "wf c \<longleftrightarrow>
     0 < n_hash_functions c \<and> n_hash_functions c \<le> 255 \<and>
     0 < bucket_size c \<and> bucket_size c dvd 32 \<and>
     state_width c = bit_width (n_hash_functions c) \<and>
     state_width c + rem_width c \<le> row_width c \<and>
     key_width c \<le> key_bits c \<and> addr_width c \<le> addr_bits c \<and>
     key_width c \<le> shift_bits c \<and>
     (\<forall>i<n_hash_functions c. \<forall>k<2 ^ key_width c.
        permute c i k < 2 ^ key_width c \<and> permute_inv c i (permute c i k) = k)"

subsection \<open>Tiles and the per-key protocols\<close>

text \<open>
  A tile of \<open>bucket_size\<close> lanes probes one bucket: lane \<open>rank\<close> reads the slot
  \<open>addr * bucket_size + rank\<close>. A sequential embedding runs one tile at a time, so the
  values the lanes hold are the list \<open>bucket c rows addr\<close>; \<open>tile.any\<close> is membership
  in that list and \<open>__popc(tile.ballot(tmp != 0))\<close> the number of its nonzero entries.
  Of the launch a tile knows \<open>gridDim.x\<close>, \<open>blockDim.x\<close>, \<open>blockIdx.x\<close> and its
  \<open>meta_group_rank\<close>, the number of the tile within its block.
\<close>

record tile =
  gridDim :: nat
  blockDim :: nat
  blockIdx :: nat
  meta_group_rank :: nat

definition bucket :: "cuckoo \<Rightarrow> store \<Rightarrow> nat \<Rightarrow> row list" where
  "bucket c rows addr = map (\<lambda>rank. rows (addr * bucket_size c + rank)) [0..<bucket_size c]"

text \<open>\<open>count\<close>: the number of slots, over all hash functions, that hold the row of \<open>k\<close>.\<close>

definition count :: "cuckoo \<Rightarrow> store \<Rightarrow> key \<Rightarrow> nat" where
  "count c rows k =
     (\<Sum>hid\<leftarrow>[0..<n_hash_functions c].
        case addr_row c hid k of (addr, row) \<Rightarrow>
          length (filter (\<lambda>v. v = row) (bucket c rows addr)))"

text \<open>\<open>coop_find\<close>: the loop over the hash ids, from \<open>hid\<close> on.\<close>

fun coop_find_loop :: "cuckoo \<Rightarrow> store \<Rightarrow> key \<Rightarrow> nat list \<Rightarrow> bool" where
  "coop_find_loop c rows k [] = False"
| "coop_find_loop c rows k (hid # hids) =
     (case addr_row c hid k of (addr, row) \<Rightarrow>
        let curr = bucket c rows addr
        in if row \<in> set curr then True
           else if 0 \<in> set curr then False
           else coop_find_loop c rows k hids)"

definition coop_find :: "cuckoo \<Rightarrow> key \<Rightarrow> tile \<Rightarrow> store \<Rightarrow> bool" where
  "coop_find c k t rows = coop_find_loop c rows k [0..<n_hash_functions c]"

text \<open>
  The victim lane of an eviction: the sum is one of \<open>unsigned int\<close> values and wraps at
  \<open>2 ^ 32\<close>.
\<close>

definition cuckoor :: "cuckoo \<Rightarrow> tile \<Rightarrow> nat \<Rightarrow> nat" where
  "cuckoor c t chain_length =
     ((blockIdx t * blockDim t + meta_group_rank t + chain_length) mod 2 ^ 32)
       mod bucket_size c"

text \<open>
  One iteration of the loop of \<open>coop_put\<close>, from the state \<open>(rows, k, hashid,
  chain_length)\<close>: it returns a result, goes on with a new state, or stops in an assertion
  of \<open>hash_key\<close>. \<open>atomicCAS\<close> and \<open>atomicExch\<close> return the old value of the slot, which
  \<open>tile.shfl\<close> hands to all lanes.
\<close>

datatype step = Return Result store | Continue store key nat nat | Abort

definition put_step :: "cuckoo \<Rightarrow> bool \<Rightarrow> tile \<Rightarrow> store \<Rightarrow> key \<Rightarrow> nat \<Rightarrow> nat \<Rightarrow> step" where
  "put_step c avoid_dups t rows k hashid chain_length =
     (case addr_row c hashid k of (addr, row) \<Rightarrow>
        let tmp = bucket c rows addr
        in if avoid_dups \<and> row \<in> set tmp then Return FOUND rows
           else
             let load = length (filter (\<lambda>v. v \<noteq> 0) tmp)
             in if load < bucket_size c then
                  let my_addr = addr * bucket_size c + load;
                      old = rows my_addr;
                      rows' = (if old = 0 then rows(my_addr := row) else rows)
                  in if old = 0 then Return PUT rows'
                     else if avoid_dups \<and> old = row then Return FOUND rows'
                     else Continue rows' k hashid chain_length
                else if chain_length \<ge> max_chain_length c then Return FULL rows
                else
                  let my_addr = addr * bucket_size c + cuckoor c t chain_length;
                      old = rows my_addr;
                      rows' = rows(my_addr := row)
                  in if avoid_dups \<and> old = row then Return FOUND rows'
                     else
                       case hash_key c addr old of
                         None \<Rightarrow> Abort
                       | Some (h, k') \<Rightarrow>
                           Continue rows' k' ((h + 1) mod n_hash_functions c)
                             (chain_length + 1))"

text \<open>
  The loop \<open>while (true)\<close> of \<open>coop_put\<close>; \<open>None\<close> when the call does not return (the
  loop runs forever, or an assertion stops it).
\<close>

partial_function (option) coop_put_loop ::
  "cuckoo \<Rightarrow> bool \<Rightarrow> tile \<Rightarrow> store \<Rightarrow> key \<Rightarrow> nat \<Rightarrow> nat \<Rightarrow> (Result \<times> store) option" where
  "coop_put_loop c avoid_dups t rows k hashid chain_length =
     (case put_step c avoid_dups t rows k hashid chain_length of
        Return res rows' \<Rightarrow> Some (res, rows')
      | Abort \<Rightarrow> None
      | Continue rows' k' hashid' chain_length' \<Rightarrow>
          coop_put_loop c avoid_dups t rows' k' hashid' chain_length')"

definition coop_put :: "cuckoo \<Rightarrow> bool \<Rightarrow> key \<Rightarrow> tile \<Rightarrow> store \<Rightarrow> (Result \<times> store) option" where
  "coop_put c avoid_dups k t rows = coop_put_loop c avoid_dups t rows k 0 0"

text \<open>
  Rows of occupied slots: the state is \<open>1 + i\<close> for a hash id \<open>i\<close>, and below the state
  there is only a remainder of \<open>rem_width\<close> bits.
\<close>

definition occupied :: "cuckoo \<Rightarrow> row \<Rightarrow> bool" where
  "occupied c row \<longleftrightarrow>
     (let s = drop_bit (row_width c - state_width c) row
      in 0 < s \<and> s \<le> n_hash_functions c \<and>
         row = push_bit (row_width c - state_width c) s
                 OR (row AND mask_of (row_width c) (rem_width c)))"

text \<open>
  The tables that puts build from a cleared slab: every slot of a bucket is empty or
  occupied, and the occupied slots of a bucket come first (a put fills the slot whose
  rank is the load of the bucket).
\<close>

definition table_inv :: "cuckoo \<Rightarrow> store \<Rightarrow> bool" where
  "table_inv c rows \<longleftrightarrow>
     (\<forall>addr<2 ^ addr_width c.
        (\<forall>v\<in>set (bucket c rows addr). v = 0 \<or> occupied c v) \<and>
        (\<forall>v\<in>set (dropWhile (\<lambda>v. v \<noteq> 0) (bucket c rows addr)). v = 0))"


text \<open>The slab after an iteration of the loop of \<open>coop_put\<close>.\<close>

definition step_store :: "step \<Rightarrow> store \<Rightarrow> store" where
  "step_store st rows =
     (case st of Return res rows' \<Rightarrow> rows' | Continue rows' k h ch \<Rightarrow> rows' | Abort \<Rightarrow> rows)"

text \<open>
  The states \<open>(rows, k, hashid, chain_length)\<close> in which the loop of a call of
  \<open>coop_put\<close> starts an iteration, from the state \<open>s0\<close> in which it starts the first.
\<close>

inductive iterates ::
  "cuckoo \<Rightarrow> bool \<Rightarrow> tile \<Rightarrow> store \<times> key \<times> nat \<times> nat \<Rightarrow> store \<times> key \<times> nat \<times> nat \<Rightarrow> bool"
  for c avoid_dups t s0 where
  first: "iterates c avoid_dups t s0 s0"
| later: "iterates c avoid_dups t s0 (rows, k, hashid, chain_length) \<Longrightarrow>
          put_step c avoid_dups t rows k hashid chain_length
            = Continue rows' k' hashid' chain_length' \<Longrightarrow>
          iterates c avoid_dups t s0 (rows', k', hashid', chain_length')"

text \<open>
  The global index of a tile, as the specification names it: the tiles of a block are
  numbered by \<open>meta_group_rank\<close>, and a block has \<open>blockDim div bucket_size\<close> of them.
\<close>

definition spec_global_bucket_index :: "tile \<Rightarrow> nat \<Rightarrow> nat" where
  "spec_global_bucket_index t B = blockIdx t * (blockDim t div B) + meta_group_rank t"

text \<open>
  The number of hash ids under which the value \<open>w\<close> of a slot of bucket \<open>addr\<close> is the
  row of the key \<open>x\<close>: what the slot adds to \<open>count c rows x\<close>.
\<close>

definition holds :: "cuckoo \<Rightarrow> nat \<Rightarrow> row \<Rightarrow> key \<Rightarrow> nat" where
  "holds c addr w x = (\<Sum>hid\<leftarrow>[0..<n_hash_functions c]. if addr_row c hid x = (addr, w) then 1 else 0)"

text \<open>
  A permutation family for concrete tables: \<open>rot_permute W i\<close> rotates the universe by
  \<open>7919 * (i + 1)\<close>.
\<close>

definition rot_permute :: "nat \<Rightarrow> nat \<Rightarrow> key \<Rightarrow> key" where
  "rot_permute W i k = (k + 7919 * (i + 1)) mod 2 ^ W"

definition rot_permute_inv :: "nat \<Rightarrow> nat \<Rightarrow> key \<Rightarrow> key" where
  "rot_permute_inv W i p = (p + (2 ^ W - (7919 * (i + 1)) mod 2 ^ W)) mod 2 ^ W"

text \<open>
  The table of the tests: \<open>Cuckoo<uint32_t, 32, _, 3>(21, 5)\<close>, with 64-bit keys and
  32-bit addresses.
\<close>

definition test_table :: cuckoo where
  "test_table =
     \<lparr> permute = rot_permute 21, permute_inv = rot_permute_inv 21, n_hash_functions = 3,
       bucket_size = 32, row_width = 32, addr_width = 5, rem_width = 16, n_rows = 4096,
       state_width = 2, key_bits = 64, addr_bits = 32, shift_bits = 32 \<rparr>"

text \<open>
  \<open>Cuckoo<uint32_t, 32>(40, 12)\<close>: keys of 40 bits in rows of 32 bits (2 bits of
  state, 28 bits of remainder, 12 bits of address), which the assertion of the constructor
  admits. In \<open>hash_key\<close> the remainder \<open>row & mask<row_type>(rem_width)\<close> is a
  \<open>uint32_t\<close>, so \<open>rem << addr_width\<close> is evaluated in 32 bits.
\<close>

definition wide_table :: cuckoo where
  "wide_table =
     \<lparr> permute = rot_permute 40, permute_inv = rot_permute_inv 40, n_hash_functions = 3,
       bucket_size = 32, row_width = 32, addr_width = 12, rem_width = 28, n_rows = 524288,
       state_width = 2, key_bits = 64, addr_bits = 32, shift_bits = 32 \<rparr>"

text \<open>
  A slab of \<open>test_table\<close> whose slots all hold the same occupied row (state 1,
  remainder 5), and the first tile of the second block of a launch with blocks of 128
  threads.
\<close>

definition full_rows :: store where
  "full_rows = (\<lambda>j. 1073741829)"

definition tile_4 :: tile where
  "tile_4 = \<lparr> gridDim = 2, blockDim = 128, blockIdx = 1, meta_group_rank = 0 \<rparr>"

text \<open>
  A small table, \<open>Cuckoo<uint32_t, 1, _, 3>(4, 1)\<close>: two buckets of one slot, keys of
  four bits. \<open>small_rows\<close> is its slab after the keys 0 and 1 have been put into the
  cleared table; \<open>tile_0\<close> is the first tile of a launch of one block.
\<close>

definition small_table :: cuckoo where
  "small_table =
     \<lparr> permute = rot_permute 4, permute_inv = rot_permute_inv 4, n_hash_functions = 3,
       bucket_size = 1, row_width = 32, addr_width = 1, rem_width = 3, n_rows = 8,
       state_width = 2, key_bits = 64, addr_bits = 32, shift_bits = 32 \<rparr>"

definition small_rows :: store where
  "small_rows = (\<lambda>j. 0)(Suc 0 := 1073741831, 0 := 1073741824)"

definition tile_0 :: tile where
  "tile_0 = \<lparr> gridDim = 1, blockDim = 128, blockIdx = 0, meta_group_rank = 0 \<rparr>"

subsection \<open>The cooperative dispatchers\<close>

text \<open>
  A device function is run by the tiles of a launch, each tile a group of \<open>bucket_size\<close>
  threads that execute together. The model runs the tiles of a launch one after the other,
  in the order of their blocks and of their rank in the block, each to its end; a
  kernel called after another one starts when that one has ended.

  A run ends normally (\<open>Done\<close>), or with a memory fault (a read or write outside of the
  range an iterator stands for, or the use of a key that no lane has loaded), or does not
  end (\<open>Hang\<close>).
\<close>

datatype fault = KeyOutOfRange nat | ResultOutOfRange nat | UninitKey | AssertionFailed

datatype 'a run = Done 'a | Fault fault | Hang

definition bind_run :: "'a run \<Rightarrow> ('a \<Rightarrow> 'b run) \<Rightarrow> 'b run" where
  "bind_run m f = (case m of Done x \<Rightarrow> f x | Fault e \<Rightarrow> Fault e | Hang \<Rightarrow> Hang)"

fun fold_run :: "('a \<Rightarrow> 's \<Rightarrow> 's run) \<Rightarrow> 'a list \<Rightarrow> 's \<Rightarrow> 's run" where
  "fold_run f [] s = Done s"
| "fold_run f (x # xs) s = bind_run (f x s) (fold_run f xs)"

fun map_run :: "('a \<Rightarrow> 'b run) \<Rightarrow> 'a list \<Rightarrow> 'b list run" where
  "map_run f [] = Done []"
| "map_run f (x # xs) = bind_run (f x) (\<lambda>y. bind_run (map_run f xs) (\<lambda>ys. Done (y # ys)))"

text \<open>
  Iterators. A key iterator gives the key at a position of its range and \<open>None\<close> outside
  of the range; a result iterator gives the offset in the result buffer that a position
  of its range stands for. \<open>key_ptr\<close> and \<open>res_ptr\<close> are plain pointers to ranges of
  given length, \<open>permutation_iterator\<close> is the view of Thrust through an array of indices.
\<close>

type_synonym key_it = "nat \<Rightarrow> key option"
type_synonym res_it = "nat \<Rightarrow> nat option"

definition key_ptr :: "key list \<Rightarrow> key_it" where
  "key_ptr keys = (\<lambda>i. if i < length keys then Some (keys ! i) else None)"

definition res_ptr :: "nat \<Rightarrow> res_it" where
  "res_ptr n = (\<lambda>i. if i < n then Some i else None)"

definition permutation_iterator :: "(nat \<Rightarrow> 'a option) \<Rightarrow> nat list \<Rightarrow> nat \<Rightarrow> 'a option" where
  "permutation_iterator it indices = (\<lambda>j. if j < length indices then it (indices ! j) else None)"

definition read_key :: "key_it \<Rightarrow> nat \<Rightarrow> key run" where
  "read_key start i = (case start i of None \<Rightarrow> Fault (KeyOutOfRange i) | Some k \<Rightarrow> Done k)"

definition read_res :: "res_it \<Rightarrow> (nat \<Rightarrow> 'r) \<Rightarrow> nat \<Rightarrow> 'r run" where
  "read_res it results i =
     (case it i of None \<Rightarrow> Fault (ResultOutOfRange i) | Some a \<Rightarrow> Done (results a))"

definition write_res :: "res_it \<Rightarrow> (nat \<Rightarrow> 'r) \<Rightarrow> nat \<Rightarrow> 'r \<Rightarrow> (nat \<Rightarrow> 'r) run" where
  "write_res it results i r =
     (case it i of None \<Rightarrow> Fault (ResultOutOfRange i) | Some a \<Rightarrow> Done (results(a := r)))"

text \<open>
  The locals of one thread in an iteration of a dispatcher loop: the position \<open>i\<close>, the
  key \<open>k\<close> (\<open>None\<close> while uninitialised), \<open>in_range\<close>, \<open>first\<close> and \<open>to_act\<close>. The
  dispatcher \<open>coop\<close> has no \<open>in_range\<close> and \<open>first\<close>; its lanes carry \<open>to_act\<close> there.
\<close>

record lane =
  lane_i :: nat
  lane_k :: "key option"
  lane_in_range :: bool
  lane_first :: bool
  lane_to_act :: bool

text \<open>\<open>__ffs\<close>: one plus the index of the lowest set bit of a ballot, 0 if there is none.\<close>

definition ffs :: "bool list \<Rightarrow> nat" where
  "ffs queue = (if True \<in> set queue then Suc (length (takeWhile (\<lambda>b. \<not> b) queue)) else 0)"

text \<open>
  The loop \<open>while (auto queue = tile.ballot(to_act))\<close> of the three dispatchers, with the
  per-key function \<open>F\<close> (\<open>None\<close>: the call does not return normally), the lanes of the
  tile in the order of their rank, the result buffer and the state that \<open>F\<close> works on.
\<close>

function ballot_loop ::
  "(key \<Rightarrow> tile \<Rightarrow> 's \<Rightarrow> ('r \<times> 's) option) \<Rightarrow> tile \<Rightarrow> res_it \<Rightarrow> lane list
     \<Rightarrow> (nat \<Rightarrow> 'r) \<Rightarrow> 's \<Rightarrow> ((nat \<Rightarrow> 'r) \<times> 's) run" where
  "ballot_loop F t results_it lanes results st =
     (let queue = map lane_to_act lanes
      in if True \<notin> set queue then Done (results, st)
         else
           let leader = ffs queue - 1
           in case lane_k (lanes ! leader) of
                None \<Rightarrow> Fault UninitKey
              | Some key \<Rightarrow>
                  (case F key t st of
                     None \<Rightarrow> Hang
                   | Some (res, st') \<Rightarrow>
                       (case write_res results_it results (lane_i (lanes ! leader)) res of
                          Done results' \<Rightarrow>
                            ballot_loop F t results_it
                              (lanes[leader := (lanes ! leader)\<lparr>lane_to_act := False\<rparr>])
                              results' st'
                        | Fault e \<Rightarrow> Fault e
                        | Hang \<Rightarrow> Hang)))"
  by pat_completeness auto
termination
proof (relation "measure (\<lambda>(F, t, results_it, lanes, results, st).
                   length (filter lane_to_act lanes))")
  show "Wellfounded.wf (measure (\<lambda>(F, t, results_it, lanes, results, st).
                   length (filter lane_to_act lanes)))"
    by simp
next
  fix F :: "key \<Rightarrow> tile \<Rightarrow> 's \<Rightarrow> ('r \<times> 's) option" and t results_it and lanes :: "lane list"
    and results :: "nat \<Rightarrow> 'r" and st :: 's and queue leader key x res st' results'
  assume q: "queue = map lane_to_act lanes" "\<not> True \<notin> set queue" "leader = ffs queue - 1"
  then have mem: "True \<in> set queue" by simp
  let ?n = "length (takeWhile (\<lambda>b. \<not> b) queue)"
  have l: "leader = ?n" using q(3) mem by (simp add: ffs_def)
  have "True \<in> set q \<Longrightarrow> length (takeWhile (\<lambda>b. \<not> b) q) < length q" for q :: "bool list"
    by (induction q) auto
  then have lt: "?n < length queue" using mem .
  then have "\<not> \<not> queue ! ?n" by (rule nth_length_takeWhile)
  then have act: "lane_to_act (lanes ! leader)" using lt l q(1) by simp
  have ll: "leader < length lanes" using lt l q(1) by simp
  have "length (filter lane_to_act (lanes[leader := (lanes ! leader)\<lparr>lane_to_act := False\<rparr>]))
          < length (filter lane_to_act lanes)"
  proof -
    have a: "lanes = take leader lanes @ lanes ! leader # drop (Suc leader) lanes"
      using ll by (simp add: id_take_nth_drop)
    have b: "lanes[leader := (lanes ! leader)\<lparr>lane_to_act := False\<rparr>]
           = take leader lanes @ (lanes ! leader)\<lparr>lane_to_act := False\<rparr>
               # drop (Suc leader) lanes"
      using ll by (simp add: upd_conv_take_nth_drop)
    have "length (filter lane_to_act lanes)
          = length (filter lane_to_act (take leader lanes)) + 1
            + length (filter lane_to_act (drop (Suc leader) lanes))"
      by (subst a) (simp add: act)
    moreover have "length (filter lane_to_act
              (lanes[leader := (lanes ! leader)\<lparr>lane_to_act := False\<rparr>]))
          = length (filter lane_to_act (take leader lanes))
            + length (filter lane_to_act (drop (Suc leader) lanes))"
      by (subst b) simp
    ultimately show ?thesis by simp
  qed
  then show "((F, t, results_it, lanes[leader := (lanes ! leader)\<lparr>lane_to_act := False\<rparr>],
          results', st'), (F, t, results_it, lanes, results, st))
        \<in> measure (\<lambda>(F, t, results_it, lanes, results, st). length (filter lane_to_act lanes))"
    by simp
qed

declare ballot_loop.simps [simp del]

text \<open>
  The thread of rank \<open>rank\<close> of the tile \<open>t\<close> has \<open>threadIdx.x = meta_group_rank * B + rank\<close>;
  this is its \<open>index = blockIdx.x * blockDim.x + threadIdx.x\<close>.
\<close>

definition tile_index :: "tile \<Rightarrow> nat \<Rightarrow> nat \<Rightarrow> nat" where
  "tile_index t B rank = blockIdx t * blockDim t + (meta_group_rank t * B + rank)"

text \<open>
  The loop \<open>for (auto i = index; i < max; i += stride)\<close>, run by the threads of a tile
  together: \<open>i\<close> is the position of the thread of rank 0, \<open>body\<close> what the tile does in
  one iteration. The bucket size divides \<open>blockDim.x\<close> and \<open>max\<close>, so the threads of a
  tile leave the loop together. The index arithmetic is done without wrap-around.
\<close>

function grid_stride ::
  "(nat \<Rightarrow> 's \<Rightarrow> 's run) \<Rightarrow> nat \<Rightarrow> nat \<Rightarrow> nat \<Rightarrow> 's \<Rightarrow> 's run" where
  "grid_stride body stride mx i s =
     (if i < mx
      then if stride = 0 then Hang
           else bind_run (body i s) (\<lambda>s'. grid_stride body stride mx (i + stride) s')
      else Done s)"
  by pat_completeness auto
termination
  by (relation "measure (\<lambda>(body, stride, mx, i, s). mx - i)") auto

declare grid_stride.simps [simp del]



text \<open>
  \<open>coop_sorted\<close>. \<open>first\<close> compares \<open>index\<close>, not \<open>i\<close>, with 0, and reads \<open>start[i - 1]\<close>
  only when \<open>index\<close> is not 0.
\<close>

definition sorted_lane :: "key_it \<Rightarrow> nat \<Rightarrow> nat \<Rightarrow> nat \<Rightarrow> lane run" where
  "sorted_lane start len index i =
     (let in_range = i < len
      in bind_run (if in_range then bind_run (read_key start i) (\<lambda>k. Done (Some k)) else Done None)
           (\<lambda>k. bind_run
                   (if \<not> in_range then Done False
                    else if index = 0 then Done True
                    else bind_run (read_key start (i - 1)) (\<lambda>p. Done (k \<noteq> Some p)))
              (\<lambda>first. Done \<lparr> lane_i = i, lane_k = k, lane_in_range = in_range,
                                lane_first = first, lane_to_act = in_range \<and> first \<rparr>)))"

definition coop_sorted ::
  "(key \<Rightarrow> tile \<Rightarrow> 's \<Rightarrow> ('r \<times> 's) option) \<Rightarrow> cuckoo \<Rightarrow> key_it \<Rightarrow> nat \<Rightarrow> res_it \<Rightarrow> tile
     \<Rightarrow> (nat \<Rightarrow> 'r) \<times> 's \<Rightarrow> ((nat \<Rightarrow> 'r) \<times> 's) run" where
  "coop_sorted F c start len results_it t =
     (let stride = gridDim t * blockDim t;
          mx = ((len + bucket_size c - 1) div bucket_size c) * bucket_size c
      in grid_stride
           (\<lambda>i (results, st).
              bind_run (map_run (\<lambda>rank. sorted_lane start len (tile_index t (bucket_size c) rank)
                                          (i + rank)) [0..<bucket_size c])
                (\<lambda>lanes. ballot_loop F t results_it lanes results st))
           stride mx (tile_index t (bucket_size c) 0))"

text \<open>\<open>coop_find_as_result\<close>, as a per-key function on the slab.\<close>

definition coop_find_as_result :: "cuckoo \<Rightarrow> key \<Rightarrow> tile \<Rightarrow> store \<Rightarrow> (Result \<times> store) option" where
  "coop_find_as_result c k t rows = Some (if coop_find c k t rows then FOUND else PUT, rows)"

text \<open>
  \<open>put_if_not_found_sorted\<close>: \<open>results[i]\<close> is read only by the lanes that are in range
  and first; after the ballot loop, the lanes in range that are not first store \<open>FOUND\<close>.
\<close>

definition put_lane ::
  "key_it \<Rightarrow> nat \<Rightarrow> res_it \<Rightarrow> (nat \<Rightarrow> Result) \<Rightarrow> nat \<Rightarrow> nat \<Rightarrow> lane run" where
  "put_lane start len results_it results index i =
     bind_run (sorted_lane start len index i)
       (\<lambda>l. bind_run
               (if lane_in_range l \<and> lane_first l
                then bind_run (read_res results_it results i) (\<lambda>r. Done (r \<noteq> FOUND))
                else Done False)
          (\<lambda>to_act. Done (l\<lparr>lane_to_act := to_act\<rparr>)))"

definition put_if_not_found_sorted ::
  "cuckoo \<Rightarrow> key_it \<Rightarrow> nat \<Rightarrow> res_it \<Rightarrow> tile
     \<Rightarrow> (nat \<Rightarrow> Result) \<times> store \<Rightarrow> ((nat \<Rightarrow> Result) \<times> store) run" where
  "put_if_not_found_sorted c start len results_it t =
     (let stride = gridDim t * blockDim t;
          mx = ((len + bucket_size c - 1) div bucket_size c) * bucket_size c
      in grid_stride
           (\<lambda>i (results, rows).
              bind_run (map_run (\<lambda>rank. put_lane start len results_it results
                                          (tile_index t (bucket_size c) rank) (i + rank))
                          [0..<bucket_size c])
                (\<lambda>lanes.
                   bind_run (ballot_loop (coop_put c False) t results_it lanes results rows)
                     (\<lambda>(results', rows').
                        bind_run
                          (fold_run (\<lambda>l res. if lane_in_range l \<and> \<not> lane_first l
                                              then write_res results_it res (lane_i l) FOUND
                                              else Done res) lanes results')
                          (\<lambda>results''. Done (results'', rows')))))
           stride mx (tile_index t (bucket_size c) 0))"

text \<open>
  A kernel launch \<open><<<n_blocks, block_size>>>\<close> of a device function: the tiles of the
  grid, and the run of the function by each of them in turn.
\<close>

definition tiles :: "nat \<Rightarrow> nat \<Rightarrow> nat \<Rightarrow> tile list" where
  "tiles n_blocks block_dim B =
     concat (map (\<lambda>b. map (\<lambda>m. \<lparr> gridDim = n_blocks, blockDim = block_dim, blockIdx = b,
                                   meta_group_rank = m \<rparr>) [0..<block_dim div B])
               [0..<n_blocks])"

definition launch :: "nat \<Rightarrow> nat \<Rightarrow> nat \<Rightarrow> (tile \<Rightarrow> 's \<Rightarrow> 's run) \<Rightarrow> 's \<Rightarrow> 's run" where
  "launch n_blocks block_dim B f s = fold_run f (tiles n_blocks block_dim B) s"

definition block_size :: nat where
  "block_size = 128"

text \<open>\<open>find_or_put_sorted\<close>: the two launches.\<close>

definition find_or_put_sorted ::
  "cuckoo \<Rightarrow> key_it \<Rightarrow> nat \<Rightarrow> res_it \<Rightarrow> (nat \<Rightarrow> Result) \<times> store
     \<Rightarrow> ((nat \<Rightarrow> Result) \<times> store) run" where
  "find_or_put_sorted c keys len results_it s =
     (let n_blocks = (len + block_size - 1) div block_size
      in bind_run
           (launch n_blocks block_size (bucket_size c)
              (coop_sorted (coop_find_as_result c) c keys len results_it) s)
           (launch n_blocks block_size (bucket_size c)
              (put_if_not_found_sorted c keys len results_it)))"

text \<open>
  \<open>find_or_put\<close>. The scratch buffer \<open>tmp\<close> holds the indices (as \<open>key_type\<close> values) in
  its first \<open>klen\<close> elements and the copies of the keys in the next \<open>klen\<close>.
  Modelled from the spec: \<open>thrust::stable_sort_by_key\<close>, which sorts the key copies by
  value, stably, and permutes the index array in lockstep.
\<close>

definition stable_sort_by_key :: "key list \<Rightarrow> nat list \<Rightarrow> key list \<times> nat list" where
  "stable_sort_by_key kcopies indices =
     (let ps = sort_key fst (zip kcopies indices) in (map fst ps, map snd ps))"

definition find_or_put ::
  "cuckoo \<Rightarrow> key list \<Rightarrow> (nat \<Rightarrow> nat) \<Rightarrow> (nat \<Rightarrow> Result) \<times> store
     \<Rightarrow> ((nat \<Rightarrow> nat) \<times> (nat \<Rightarrow> Result) \<times> store) run" where
  "find_or_put c keys tmp s =
     (let klen = length keys
      in if \<not> klen \<le> 2 ^ key_bits c - 1 then Fault AssertionFailed
         else if \<not> klen \<le> 2 ^ 31 - 1 then Fault AssertionFailed
         else
           let kcopies = keys;
               indices = map (take_bit (key_bits c)) [0..<klen];
               (kcopies', indices') = stable_sort_by_key kcopies indices;
               tmp' = (\<lambda>a. if a < klen then indices' ! a
                           else if a < 2 * klen then kcopies' ! (a - klen) else tmp a);
               key_view = permutation_iterator (key_ptr keys) indices';
               res_view = permutation_iterator (res_ptr klen) indices'
           in bind_run (find_or_put_sorted c key_view klen res_view s)
                (\<lambda>(results', rows'). Done (tmp', results', rows')))"

subsection \<open>What a tile does for one lane, and per-key functions restricted to a set of keys\<close>

text \<open>
  \<open>act_lane\<close>: the iteration of the ballot loop in which the lane \<open>l\<close> is the leader, if
  the lane is pending; nothing otherwise.
\<close>

definition act_lane ::
  "(key \<Rightarrow> tile \<Rightarrow> 's \<Rightarrow> ('r \<times> 's) option) \<Rightarrow> tile \<Rightarrow> res_it \<Rightarrow> lane
     \<Rightarrow> (nat \<Rightarrow> 'r) \<times> 's \<Rightarrow> ((nat \<Rightarrow> 'r) \<times> 's) run" where
  "act_lane F t results_it l = (\<lambda>(results, st).
     if lane_to_act l
     then case lane_k l of
            None \<Rightarrow> Fault UninitKey
          | Some key \<Rightarrow>
              (case F key t st of
                 None \<Rightarrow> Hang
               | Some (res, st') \<Rightarrow>
                   bind_run (write_res results_it results (lane_i l) res)
                     (\<lambda>results'. Done (results', st')))
     else Done (results, st))"




definition sorted_lanes :: "key_it \<Rightarrow> nat \<Rightarrow> nat \<Rightarrow> nat \<Rightarrow> nat \<Rightarrow> lane list" where
  "sorted_lanes start len B index0 i =
     map (\<lambda>rank. \<lparr> lane_i = i + rank,
                    lane_k = (if i + rank < len then start (i + rank) else None),
                    lane_in_range = i + rank < len,
                    lane_first = (i + rank < len
                       \<and> (index0 + rank = 0 \<or> start (i + rank) \<noteq> start (i + rank - 1))),
                    lane_to_act = (i + rank < len
                       \<and> (index0 + rank = 0 \<or> start (i + rank) \<noteq> start (i + rank - 1))) \<rparr>)
       [0..<B]"

subsection \<open>Launches that cover the range in one grid stride, position by position\<close>

text \<open>The tile whose threads have the indices \<open>i - i mod B\<close> to \<open>i - i mod B + B - 1\<close>.\<close>

definition tile_of :: "nat \<Rightarrow> nat \<Rightarrow> nat \<Rightarrow> nat \<Rightarrow> tile" where
  "tile_of n_blocks block_dim B i =
     \<lparr> gridDim = n_blocks, blockDim = block_dim, blockIdx = i div block_dim,
       meta_group_rank = (i mod block_dim) div B \<rparr>"

text \<open>
  What is done for position \<open>i\<close> of a range with the keys \<open>kf 0\<close>, \<open>kf 1\<close>, \<dots>, whose
  result is at the offset \<open>p i\<close>: by the sorted dispatcher (the key is probed with \<open>F\<close>
  if and only if \<open>i\<close> is 0 or the key differs from the one before), and by the second pass
  of the sorted find-or-put, whose result buffer was \<open>results0\<close> when the pass started.
\<close>

definition probe_first ::
  "(key \<Rightarrow> tile \<Rightarrow> 's \<Rightarrow> ('r \<times> 's) option) \<Rightarrow> (nat \<Rightarrow> key) \<Rightarrow> (nat \<Rightarrow> nat) \<Rightarrow> (nat \<Rightarrow> tile)
     \<Rightarrow> nat \<Rightarrow> (nat \<Rightarrow> 'r) \<times> 's \<Rightarrow> ((nat \<Rightarrow> 'r) \<times> 's) run" where
  "probe_first F kf p tile_at i = (\<lambda>(results, st).
     if i = 0 \<or> kf i \<noteq> kf (i - 1)
     then case F (kf i) (tile_at i) st of
            None \<Rightarrow> Hang
          | Some (res, st') \<Rightarrow> Done (results(p i := res), st')
     else Done (results, st))"

definition put_first ::
  "cuckoo \<Rightarrow> (nat \<Rightarrow> key) \<Rightarrow> (nat \<Rightarrow> nat) \<Rightarrow> (nat \<Rightarrow> tile) \<Rightarrow> (nat \<Rightarrow> Result)
     \<Rightarrow> nat \<Rightarrow> (nat \<Rightarrow> Result) \<times> store \<Rightarrow> ((nat \<Rightarrow> Result) \<times> store) run" where
  "put_first c kf p tile_at results0 i = (\<lambda>(results, rows).
     if i = 0 \<or> kf i \<noteq> kf (i - 1)
     then if results0 (p i) \<noteq> FOUND
          then case coop_put c False (kf i) (tile_at i) rows of
                 None \<Rightarrow> Hang
               | Some (res, rows') \<Rightarrow> Done (results(p i := res), rows')
          else Done (results, rows)
     else Done (results(p i := FOUND), rows))"

text \<open>The lane of the thread with \<open>index = i\<close> in its first iteration, when every
  position of the range can be read.\<close>

definition sorted_lane_at :: "key_it \<Rightarrow> nat \<Rightarrow> nat \<Rightarrow> lane" where
  "sorted_lane_at start len i =
     \<lparr> lane_i = i, lane_k = (if i < len then start i else None), lane_in_range = i < len,
       lane_first = (i < len \<and> (i = 0 \<or> start i \<noteq> start (i - 1))),
       lane_to_act = (i < len \<and> (i = 0 \<or> start i \<noteq> start (i - 1))) \<rparr>"

text \<open>The same for the second pass of the sorted find-or-put, with the result buffer
  \<open>results\<close> of the moment when the tile loads its lanes, and what a lane that is in
  range and not first does after the ballot loop.\<close>

definition put_lane_at :: "key_it \<Rightarrow> nat \<Rightarrow> (nat \<Rightarrow> nat) \<Rightarrow> (nat \<Rightarrow> Result) \<Rightarrow> nat \<Rightarrow> lane" where
  "put_lane_at start len p results i =
     \<lparr> lane_i = i, lane_k = (if i < len then start i else None), lane_in_range = i < len,
       lane_first = (i < len \<and> (i = 0 \<or> start i \<noteq> start (i - 1))),
       lane_to_act = (i < len \<and> (i = 0 \<or> start i \<noteq> start (i - 1))
                        \<and> results (p i) \<noteq> FOUND) \<rparr>"

definition store_found :: "(nat \<Rightarrow> nat) \<Rightarrow> lane \<Rightarrow> (nat \<Rightarrow> Result) \<times> store \<Rightarrow> (nat \<Rightarrow> Result) \<times> store" where
  "store_found p l = (\<lambda>(results, rows).
     (if lane_in_range l \<and> \<not> lane_first l then results(p (lane_i l) := FOUND) else results, rows))"

text \<open>\<open>put_first\<close> with the result buffer of the moment, for the positions of the range.\<close>

definition put_visit ::
  "cuckoo \<Rightarrow> (nat \<Rightarrow> key) \<Rightarrow> (nat \<Rightarrow> nat) \<Rightarrow> (nat \<Rightarrow> tile) \<Rightarrow> nat
     \<Rightarrow> nat \<Rightarrow> (nat \<Rightarrow> Result) \<times> store \<Rightarrow> ((nat \<Rightarrow> Result) \<times> store) run" where
  "put_visit c kf p tile_at len i s =
     (if i < len then put_first c kf p tile_at (fst s) i s else Done s)"

text \<open>The positions of a key range at which a key occurs that differs from the one
  before it; in a sorted range, the first occurrences of the keys.\<close>

definition first_positions :: "key list \<Rightarrow> nat list" where
  "first_positions keys = filter (\<lambda>i. i = 0 \<or> keys ! i \<noteq> keys ! (i - 1)) [0..<length keys]"

text \<open>A per-key function that counts its calls.\<close>

definition count_probes :: "key \<Rightarrow> tile \<Rightarrow> nat \<Rightarrow> (Result \<times> nat) option" where
  "count_probes k t n = Some (PUT, n + 1)"

section \<open>The compact encoding\<close>

lemma bit_width_gt: "n < 2 ^ bit_width n"
proof (induction n rule: bit_width.induct)
  case (1 n)
  show ?case
  proof (cases "n = 0")
    case True
    then show ?thesis by (simp add: bit_width.simps)
  next
    case False
    with 1 have "n div 2 < 2 ^ bit_width (n div 2)" by simp
    then have "n < 2 * 2 ^ bit_width (n div 2)" by linarith
    with False show ?thesis by (subst bit_width.simps) simp
  qed
qed

lemma bit_below: "(x::nat) < 2 ^ m \<Longrightarrow> bit x n \<Longrightarrow> n < m"
proof -
  assume a: "x < 2 ^ m" and b: "bit x n"
  have "take_bit m x = x" using a by (simp add: take_bit_nat_eq_self_iff)
  then have "bit (take_bit m x) n" using b by simp
  then show "n < m" by (simp add: bit_take_bit_iff)
qed

lemma state_part:
  assumes "s < 2 ^ sw" "sw \<le> rw" "r < 2 ^ (rw - sw)"
  shows "take_bit rw (take_bit rw (push_bit (rw - sw) (take_bit rw (s::nat))) OR r)
           = push_bit (rw - sw) s OR r"
    and "drop_bit (rw - sw) (push_bit (rw - sw) s OR r) = s"
    and "m \<le> rw - sw \<Longrightarrow> (push_bit (rw - sw) s OR r) AND mask_of rw m = take_bit m r"
proof -
  show "take_bit rw (take_bit rw (push_bit (rw - sw) (take_bit rw s)) OR r)
          = push_bit (rw - sw) s OR r"
    apply (rule bit_eqI)
    using assms(2)
    apply (auto simp: bit_simps dest: bit_below[OF assms(1)] bit_below[OF assms(3)])
    done
  show "drop_bit (rw - sw) (push_bit (rw - sw) s OR r) = s"
    apply (rule bit_eqI)
    using assms(2)
    apply (auto simp: bit_simps dest: bit_below[OF assms(1)] bit_below[OF assms(3)])
    done
  show "m \<le> rw - sw \<Longrightarrow> (push_bit (rw - sw) s OR r) AND mask_of rw m = take_bit m r"
    unfolding mask_of_def
    apply (rule bit_eqI)
    using assms(2)
    apply (auto simp: bit_simps dest: bit_below[OF assms(1)] bit_below[OF assms(3)])
    done
qed

lemma pk_parts:
  assumes "pk < 2 ^ (a + r)" "a + r \<le> kb" "a \<le> ab" "a + r \<le> sb"
  shows "drop_bit a (take_bit kb (pk::nat)) < 2 ^ r"
    and "take_bit sb (push_bit a (take_bit r (drop_bit a (take_bit kb pk))))
           OR take_bit ab (take_bit kb pk AND mask_of kb a) = pk"
    and "take_bit ab (take_bit kb pk AND mask_of kb a) < 2 ^ a"
proof -
  have k: "take_bit kb pk = pk"
    using assms(1,2) by (metis bit_below bit_take_bit_iff bit_eqI order_less_le_trans)
  have "pk div 2 ^ a < 2 ^ r"
    using assms(1) by (simp add: less_mult_imp_div_less power_add mult.commute)
  then show "drop_bit a (take_bit kb pk) < 2 ^ r" by (simp add: k drop_bit_eq_div)
  show "take_bit sb (push_bit a (take_bit r (drop_bit a (take_bit kb pk))))
           OR take_bit ab (take_bit kb pk AND mask_of kb a) = pk"
    unfolding k mask_of_def
    apply (rule bit_eqI)
    using assms(2-4) apply (auto simp: bit_simps dest: bit_below[OF assms(1)])
    done
  have "take_bit ab (take_bit kb pk AND mask_of kb a) = take_bit a pk"
    unfolding k mask_of_def
    apply (rule bit_eqI)
    using assms(2-4) apply (auto simp: bit_simps dest: bit_below[OF assms(1)])
    done
  then show "take_bit ab (take_bit kb pk AND mask_of kb a) < 2 ^ a" by simp
qed

text \<open>
  What \<open>addr_row\<close> returns for a key of the universe: the address is below \<open>2 ^ A\<close>,
  the row is the state \<open>i + 1\<close> above a remainder below \<open>2 ^ (W - A)\<close>, and \<open>hash_key\<close>
  decodes the pair.
\<close>

lemma addr_row_decode:
  assumes "wf c" "i < n_hash_functions c" "k < 2 ^ key_width c"
    and "addr_row c i k = (addr, row)"
  shows "hash_key c addr row = Some (i, k)"
    and "addr < 2 ^ addr_width c"
    and "row \<noteq> 0"
    and "drop_bit (row_width c - state_width c) row = i + 1"
    and "row AND mask_of (row_width c) (rem_width c) < 2 ^ rem_width c"
    and "row = push_bit (row_width c - state_width c) (i + 1)
                 OR (row AND mask_of (row_width c) (rem_width c))"
proof -
  define rw sw R A where "rw = row_width c" and "sw = state_width c"
    and "R = rem_width c" and "A = addr_width c"
  define pk where "pk = permute c i k"
  define rem where "rem = drop_bit A (take_bit (key_bits c) pk)"
  have perm: "pk < 2 ^ (A + R)" "permute_inv c i pk = k"
    using assms(1-3) by (simp_all add: wf_def pk_def key_width_def A_def R_def)
  have widths: "sw + R \<le> rw" "A + R \<le> key_bits c" "A \<le> addr_bits c" "A + R \<le> shift_bits c"
    using assms(1) by (simp_all add: wf_def key_width_def rw_def sw_def R_def A_def)
  have "n_hash_functions c < 2 ^ sw"
    using assms(1) bit_width_gt [of "n_hash_functions c"] by (simp add: wf_def sw_def)
  with assms(2) have s: "i + 1 < 2 ^ sw" by simp
  have sw: "sw \<le> rw" and R: "R \<le> rw - sw" using widths(1) by simp_all
  have remR: "rem < 2 ^ R"
    unfolding rem_def using perm(1) widths(2-4) by (rule pk_parts(1))
  also have "(2::nat) ^ R \<le> 2 ^ (rw - sw)" using R by simp
  finally have rem: "rem < 2 ^ (rw - sw)" .
  have row: "row = push_bit (rw - sw) (i + 1) OR rem"
    and addr: "addr = take_bit (addr_bits c) (take_bit (key_bits c) pk AND mask_of (key_bits c) A)"
    using assms(4) state_part(1) [OF s sw rem]
    by (simp_all add: addr_row_def Let_def rw_def sw_def A_def rem_def pk_def)
  show "addr < 2 ^ addr_width c"
    unfolding addr A_def [symmetric] using perm(1) widths(2-4) by (rule pk_parts(3))
  have state: "drop_bit (rw - sw) row = i + 1"
    unfolding row using s sw rem by (rule state_part(2))
  then show "drop_bit (row_width c - state_width c) row = i + 1"
    by (simp add: rw_def sw_def)
  show nz: "row \<noteq> 0"
  proof
    assume "row = 0"
    with state show False by simp
  qed
  have "(2::nat) ^ sw \<le> 2 ^ rw" using sw by simp
  with s have "i < 2 ^ rw" by linarith
  then have hid: "(drop_bit (rw - sw) row + 2 ^ rw - 1) mod 2 ^ rw = i"
    by (simp add: state)
  have tb: "take_bit R rem = rem"
    using remR by (simp add: take_bit_nat_eq_self_iff)
  have rem': "row AND mask_of rw R = take_bit R rem"
    unfolding row using state_part(3) [OF s sw rem R] by simp
  with tb remR show "row AND mask_of (row_width c) (rem_width c) < 2 ^ rem_width c"
    by (simp add: rw_def R_def)
  from rem' tb row
  show "row = push_bit (row_width c - state_width c) (i + 1)
                OR (row AND mask_of (row_width c) (rem_width c))"
    by (simp add: rw_def sw_def R_def)
  have pk: "take_bit (shift_bits c) (push_bit A (take_bit R rem)) OR addr = pk"
    unfolding addr rem_def using perm(1) widths(2-4) by (rule pk_parts(2))
  have i8: "take_bit 8 i = i"
    using assms(1,2) by (simp add: wf_def take_bit_nat_eq_self_iff)
  show "hash_key c addr row = Some (i, k)"
    using nz hid assms(2) rem' pk i8 perm(2)
    by (simp add: hash_key_def Let_def rw_def [symmetric] sw_def [symmetric]
        R_def [symmetric] A_def [symmetric])
qed

lemma rot_permute_inverse:
  assumes "k < 2 ^ W"
  shows "rot_permute W i k < 2 ^ W" and "rot_permute_inv W i (rot_permute W i k) = k"
proof -
  show "rot_permute W i k < 2 ^ W" by (simp add: rot_permute_def)
  define d where "d = (7919 * (i + 1)) mod 2 ^ W"
  have d: "d < 2 ^ W" by (simp add: d_def)
  have "rot_permute_inv W i (rot_permute W i k) = ((k + d) mod 2 ^ W + (2 ^ W - d)) mod 2 ^ W"
    by (simp add: rot_permute_def rot_permute_inv_def d_def mod_add_right_eq)
  also have "\<dots> = (k + d + (2 ^ W - d)) mod 2 ^ W"
    by (simp add: mod_add_left_eq)
  also have "\<dots> = (k + 2 ^ W) mod 2 ^ W" using d by simp
  also have "\<dots> = k" using assms by simp
  finally show "rot_permute_inv W i (rot_permute W i k) = k" .
qed

lemma bit_width_3: "bit_width 3 = 2"
  by (simp add: bit_width.simps)

lemma wf_test_table: "wf test_table"
proof -
  have "\<forall>i<3::nat. \<forall>k<2 ^ 21. rot_permute 21 i k < 2 ^ 21
          \<and> rot_permute_inv 21 i (rot_permute 21 i k) = k"
    using rot_permute_inverse by blast
  then show ?thesis
    by (simp add: wf_def test_table_def key_width_def bit_width_3)
qed

text \<open>
  The round trip of the compact encoding, on well-formed tables. Among the conditions of
  \<open>wf\<close> is \<open>key_width c \<le> shift_bits c\<close>: the type in which \<open>hash_key\<close> shifts the
  remainder holds a whole key. The constructor does not check it.
\<close>

lemma hash_key_addr_row:
  assumes "wf c" and "i < n_hash_functions c" and "k < 2 ^ key_width c"
  shows "(case addr_row c i k of (addr, row) \<Rightarrow> hash_key c addr row) = Some (i, k)"
proof (cases "addr_row c i k")
  case (Pair addr row)
  with assms show ?thesis by (simp add: addr_row_decode(1))
qed

lemma hash_key_addr_row_test_table:
  "(case addr_row test_table 1 365 of (addr, row) \<Rightarrow> hash_key test_table addr row)
     = Some (1, 365)"
proof -
  have h: "(1::nat) < n_hash_functions test_table" "(365::nat) < 2 ^ key_width test_table"
    by (simp_all add: test_table_def key_width_def)
  show ?thesis
    using hash_key_addr_row [OF wf_test_table h] by simp
qed

text \<open>
  C1. The claim is that for every hash id \<open>i\<close> below \<open>n_hash_functions\<close> and every key
  \<open>k\<close> of the universe \<open>[0, 2 ^ W)\<close>, \<open>hash_key\<close> applied to the address and row that
  \<open>addr_row\<close> computes for \<open>(i, k)\<close> returns \<open>(i, k)\<close>. The code does not do that when the
  keys are wider than the rows: the constructor builds \<open>Cuckoo<uint32_t, 32>(40, 12)\<close>,
  the key \<open>2 ^ 39 + 5\<close> of its universe is encoded with hash id 0 as address 3828 and row
  1207959553 (state 1, remainder \<open>2 ^ 27 + 1\<close>), and \<open>hash_key\<close> decodes that pair to
  \<open>(0, 5)\<close>: the bits of the remainder that the 32-bit shift \<open>rem << addr_width\<close> moves
  past bit 31 are lost.
\<close>

theorem hash_key_addr_row_wide_table:
  "Cuckoo (rot_permute 40) (rot_permute_inv 40) 3 32 32 64 32 32 40 12 mem
     = Some (wide_table, clear wide_table mem)
   \<and> (0::nat) < n_hash_functions wide_table
   \<and> (2 ^ 39 + 5::nat) < 2 ^ key_width wide_table
   \<and> addr_row wide_table 0 (2 ^ 39 + 5) = (3828, 1207959553)
   \<and> hash_key wide_table 3828 1207959553 = Some (0, 5)
   \<and> (case addr_row wide_table 0 (2 ^ 39 + 5) of (addr, row) \<Rightarrow> hash_key wide_table addr row)
       \<noteq> Some (0, 2 ^ 39 + 5)"
  by (simp add: Cuckoo_def wide_table_def bit_width_3 addr_row_def hash_key_def mask_of_def
      mask_eq_exp_minus_1 rot_permute_def rot_permute_inv_def key_width_def Let_def)

subsection \<open>Occupied rows decode to keys of the universe\<close>

lemma wf_state_bound: "wf c \<Longrightarrow> n_hash_functions c < 2 ^ state_width c"
  using bit_width_gt [of "n_hash_functions c"] by (simp add: wf_def)

lemma occupied_addr_row:
  assumes "wf c" "i < n_hash_functions c" "k < 2 ^ key_width c" "addr_row c i k = (addr, row)"
  shows "occupied c row"
  using addr_row_decode(4,6) [OF assms] assms(2) by (simp add: occupied_def Let_def)

lemma occupied_nz: "occupied c row \<Longrightarrow> row \<noteq> 0"
proof
  assume "occupied c row" and "row = 0"
  then show False by (simp add: occupied_def)
qed

lemma permute_surj:
  assumes "wf c" "i < n_hash_functions c" "p < 2 ^ key_width c"
  shows "permute_inv c i p < 2 ^ key_width c" and "permute c i (permute_inv c i p) = p"
proof -
  let ?S = "{..<(2::nat) ^ key_width c}"
  have inv: "\<And>k. k \<in> ?S \<Longrightarrow> permute c i k \<in> ?S \<and> permute_inv c i (permute c i k) = k"
    using assms(1,2) by (simp add: wf_def)
  have "inj_on (permute c i) ?S"
    by (rule inj_on_inverseI [where g = "permute_inv c i"]) (simp add: inv)
  moreover have "permute c i ` ?S \<subseteq> ?S" using inv by blast
  ultimately have "permute c i ` ?S = ?S" by (simp add: endo_inj_surj)
  with assms(3) obtain k0 where k0: "k0 \<in> ?S" "p = permute c i k0" by blast
  with inv [OF k0(1)] show "permute_inv c i p < 2 ^ key_width c"
    and "permute c i (permute_inv c i p) = p" by simp_all
qed

lemma compose_pk:
  assumes "rem < 2 ^ r" "addr < 2 ^ a" "a + r \<le> sb" "a + r \<le> kb" "a \<le> ab"
  shows "take_bit sb (push_bit a (rem::nat)) OR addr < 2 ^ (a + r)"
    and "take_bit ab (take_bit kb (take_bit sb (push_bit a rem) OR addr) AND mask_of kb a) = addr"
    and "drop_bit a (take_bit kb (take_bit sb (push_bit a rem) OR addr)) = rem"
proof -
  have e: "take_bit sb (push_bit a rem) OR addr = take_bit (a + r) (push_bit a rem OR addr)"
    apply (rule bit_eqI)
    using assms(3) apply (auto simp: bit_simps dest: bit_below[OF assms(1)] bit_below[OF assms(2)])
    done
  show "take_bit sb (push_bit a rem) OR addr < 2 ^ (a + r)"
    by (simp only: e take_bit_nat_less_exp)
  show "take_bit ab (take_bit kb (take_bit sb (push_bit a rem) OR addr) AND mask_of kb a) = addr"
    unfolding mask_of_def
    apply (rule bit_eqI)
    using assms(3-5) apply (auto simp: bit_simps dest: bit_below[OF assms(1)] bit_below[OF assms(2)])
    done
  show "drop_bit a (take_bit kb (take_bit sb (push_bit a rem) OR addr)) = rem"
    apply (rule bit_eqI)
    using assms(3-5) apply (auto simp: bit_simps dest: bit_below[OF assms(1)] bit_below[OF assms(2)])
    done
qed

lemma rem_bound: "r \<le> rw \<Longrightarrow> (row::nat) AND mask_of rw r < 2 ^ r"
proof -
  assume "r \<le> rw"
  then have "row AND mask_of rw r = take_bit r row"
    unfolding mask_of_def by (intro bit_eqI) (auto simp: bit_simps)
  then show ?thesis by simp
qed

lemma hash_key_occupied:
  assumes "wf c" "occupied c row" "addr < 2 ^ addr_width c"
  shows "\<exists>h k. hash_key c addr row = Some (h, k) \<and> h < n_hash_functions c
           \<and> k < 2 ^ key_width c \<and> addr_row c h k = (addr, row)"
proof -
  define rw sw R A where "rw = row_width c" and "sw = state_width c"
    and "R = rem_width c" and "A = addr_width c"
  define s where "s = drop_bit (rw - sw) row"
  define rem where "rem = row AND mask_of rw R"
  define pk where "pk = take_bit (shift_bits c) (push_bit A rem) OR addr"
  define h where "h = s - 1"
  define k where "k = permute_inv c h pk"
  have widths: "sw + R \<le> rw" "A + R \<le> key_bits c" "A \<le> addr_bits c" "A + R \<le> shift_bits c"
    using assms(1) by (simp_all add: wf_def key_width_def rw_def sw_def R_def A_def)
  have s: "0 < s" "s \<le> n_hash_functions c" and row: "row = push_bit (rw - sw) s OR rem"
    using assms(2) by (simp_all add: occupied_def Let_def s_def rem_def rw_def sw_def R_def)
  have h: "h < n_hash_functions c" "h + 1 = s" using s by (simp_all add: h_def)
  have H: "n_hash_functions c < 2 ^ sw" "n_hash_functions c \<le> 255"
    using wf_state_bound [OF assms(1)] assms(1) by (simp_all add: sw_def wf_def)
  have "(2::nat) ^ sw \<le> 2 ^ rw" using widths(1) by simp
  with H(1) h(1) have "h < 2 ^ rw" by linarith
  moreover have "s + 2 ^ rw - 1 = h + 2 ^ rw" using s(1) by (simp add: h_def)
  ultimately have hid: "(s + 2 ^ rw - 1) mod 2 ^ rw = h" by simp
  have rem: "rem < 2 ^ R" unfolding rem_def using widths(1) by (intro rem_bound) simp
  have addr: "addr < 2 ^ A" using assms(3) by (simp add: A_def)
  note cp = compose_pk [OF rem addr widths(4) widths(2) widths(3), folded pk_def]
  have pkW: "pk < 2 ^ key_width c" using cp(1) by (simp add: key_width_def A_def R_def)
  note ps = permute_surj [OF assms(1) h(1) pkW, folded k_def]
  have nz: "row \<noteq> 0" using assms(2) by (rule occupied_nz)
  have h8: "take_bit 8 h = h" using h(1) H(2) by (simp add: take_bit_nat_eq_self_iff)
  have hk: "hash_key c addr row = Some (h, k)"
    using nz hid h(1) h8
    by (simp add: hash_key_def Let_def rw_def [symmetric] sw_def [symmetric]
        R_def [symmetric] A_def [symmetric] s_def [symmetric] rem_def [symmetric]
        pk_def [symmetric] k_def)
  have "s < 2 ^ sw" using s(2) H(1) by simp
  moreover have "sw \<le> rw" using widths(1) by simp
  moreover have "rem < 2 ^ (rw - sw)"
  proof -
    have "(2::nat) ^ R \<le> 2 ^ (rw - sw)" using widths(1) by simp
    with rem show ?thesis by linarith
  qed
  ultimately have sp: "take_bit rw (take_bit rw (push_bit (rw - sw) (take_bit rw s)) OR rem)
           = push_bit (rw - sw) s OR rem" by (rule state_part(1))
  have "addr_row c h k = (addr, row)"
    using ps(2) cp(2,3) sp row h(2)
    by (simp add: addr_row_def Let_def rw_def [symmetric] sw_def [symmetric]
        A_def [symmetric])
  with hk h(1) ps(1) show ?thesis by blast
qed

section \<open>The loop of \<open>coop_put\<close>\<close>

subsection \<open>Buckets\<close>

lemma length_bucket [simp]: "length (bucket c rows addr) = bucket_size c"
  by (simp add: bucket_def)

lemma nth_bucket [simp]: "r < bucket_size c \<Longrightarrow> bucket c rows addr ! r = rows (addr * bucket_size c + r)"
  by (simp add: bucket_def)

lemma slot_inj:
  assumes "r < (B::nat)" "r' < B" "a * B + r = a' * B + r'"
  shows "a = a' \<and> r = r'"
proof -
  have "(a * B + r) div B = a" "(a' * B + r') div B = a'" using assms(1,2) by simp_all
  with assms(3) have "a = a'" by simp
  with assms(3) show ?thesis by simp
qed

lemma bucket_upd_same:
  "r < bucket_size c \<Longrightarrow>
   bucket c (rows(addr * bucket_size c + r := v)) addr = (bucket c rows addr)[r := v]"
  by (rule nth_equalityI) (auto simp: nth_list_update)

lemma bucket_upd_other:
  assumes "r < bucket_size c" "addr' \<noteq> addr"
  shows "bucket c (rows(addr * bucket_size c + r := v)) addr' = bucket c rows addr'"
proof (rule nth_equalityI)
  show "length (bucket c (rows(addr * bucket_size c + r := v)) addr') = length (bucket c rows addr')"
    by simp
next
  fix i assume "i < length (bucket c (rows(addr * bucket_size c + r := v)) addr')"
  then have i: "i < bucket_size c" by simp
  have "addr' * bucket_size c + i \<noteq> addr * bucket_size c + r"
    using slot_inj [OF i assms(1)] assms(2) by blast
  then show "bucket c (rows(addr * bucket_size c + r := v)) addr' ! i = bucket c rows addr' ! i"
    using i by simp
qed

text \<open>Lists in which the elements that satisfy \<open>P\<close> come first.\<close>

lemma load_takeWhile:
  assumes "\<forall>v\<in>set (dropWhile P xs). \<not> P v"
  shows "length (filter P xs) = length (takeWhile P xs)"
proof -
  have d: "filter P (dropWhile P xs) = []"
    unfolding filter_empty_conv by (rule assms)
  have t: "filter P (takeWhile P xs) = takeWhile P xs"
    unfolding filter_id_conv by (blast dest: set_takeWhileD)
  have "filter P (takeWhile P xs @ dropWhile P xs) = takeWhile P xs"
    unfolding filter_append d t by simp
  then show ?thesis by (simp only: takeWhile_dropWhile_id)
qed

lemma load_slot_empty:
  assumes "\<forall>v\<in>set (dropWhile P xs). \<not> P v"
    and "length (filter P xs) < length xs"
  shows "\<not> P (xs ! length (filter P xs))"
proof -
  have eq: "length (filter P xs) = length (takeWhile P xs)"
    using assms(1) by (rule load_takeWhile)
  with assms(2) have "length (takeWhile P xs) < length xs" by simp
  then have "\<not> P (xs ! length (takeWhile P xs))" by (rule nth_length_takeWhile)
  then show ?thesis unfolding eq .
qed

lemma load_fill:
  assumes "\<forall>v\<in>set (dropWhile P xs). \<not> P v"
    and "length (filter P xs) < length xs" and "P w"
  shows "\<forall>v\<in>set (dropWhile P (xs[length (filter P xs) := w])). \<not> P v"
proof -
  define ys zs where "ys = takeWhile P xs" and "zs = dropWhile P xs"
  have xs: "xs = ys @ zs" by (simp add: ys_def zs_def)
  have load: "length (filter P xs) = length ys"
    unfolding ys_def using assms(1) by (rule load_takeWhile)
  have ys: "\<forall>v\<in>set ys. P v" by (auto simp: ys_def dest: set_takeWhileD)
  from assms(2) load xs have "zs \<noteq> []" by auto
  then obtain z zs' where zs: "zs = z # zs'" by (cases zs) auto
  have "xs[length ys := w] = ys @ w # zs'" by (simp add: xs zs)
  then have "dropWhile P (xs[length ys := w]) = dropWhile P zs'"
    using ys assms(3) by (simp add: dropWhile_append)
  moreover have "set (dropWhile P zs') \<subseteq> set zs"
    using set_dropWhileD [of _ P zs'] by (auto simp: zs)
  ultimately have "set (dropWhile P (xs[length ys := w])) \<subseteq> set (dropWhile P xs)"
    by (simp add: zs_def)
  then show ?thesis unfolding load using assms(1) by blast
qed

lemma full_bucket:
  assumes "\<not> length (filter P xs) < length xs"
  shows "\<forall>v\<in>set xs. P v"
proof
  fix v assume "v \<in> set xs"
  then show "P v" using assms length_filter_less [of v xs P] by auto
qed

lemma full_update:
  assumes "\<forall>v\<in>set xs. P v" and "P w"
  shows "\<forall>v\<in>set (xs[i := w]). P v"
    and "\<forall>v\<in>set (dropWhile P (xs[i := w])). \<not> P v"
proof -
  show a: "\<forall>v\<in>set (xs[i := w]). P v"
    using assms set_update_subset_insert [of xs i w] by auto
  then have e: "dropWhile P (xs[i := w]) = []" by (simp only: dropWhile_eq_Nil_conv)
  show "\<forall>v\<in>set (dropWhile P (xs[i := w])). \<not> P v" unfolding e by simp
qed

subsection \<open>The table invariant\<close>

lemma cuckoor_less: "wf c \<Longrightarrow> cuckoor c t ch < bucket_size c"
  by (simp add: cuckoor_def wf_def)

lemma cuckoor_eq:
  assumes "wf c"
  shows "cuckoor c t ch = (blockIdx t * blockDim t + meta_group_rank t + ch) mod bucket_size c"
proof -
  have "bucket_size c dvd 32" using assms by (simp add: wf_def)
  moreover have "(32::nat) dvd 2 ^ 32" by simp
  ultimately have "bucket_size c dvd 2 ^ 32" by (rule dvd_trans)
  then show ?thesis by (simp add: cuckoor_def mod_mod_cancel)
qed

lemma table_invD:
  assumes "table_inv c rows" "addr < 2 ^ addr_width c"
  shows "\<forall>v\<in>set (bucket c rows addr). v = 0 \<or> occupied c v"
    and "\<forall>v\<in>set (dropWhile (\<lambda>v. v \<noteq> 0) (bucket c rows addr)). \<not> v \<noteq> 0"
proof -
  note t = assms(1) [unfolded table_inv_def, rule_format, OF assms(2)]
  show "\<forall>v\<in>set (bucket c rows addr). v = 0 \<or> occupied c v" using t by (rule conjunct1)
  show "\<forall>v\<in>set (dropWhile (\<lambda>v. v \<noteq> 0) (bucket c rows addr)). \<not> v \<noteq> 0"
    unfolding not_not using t by (rule conjunct2)
qed

lemma table_inv_update:
  assumes "table_inv c rows" "addr < 2 ^ addr_width c" "r < bucket_size c"
    and "\<forall>v\<in>set ((bucket c rows addr)[r := w]). v = 0 \<or> occupied c v"
    and "\<forall>v\<in>set (dropWhile (\<lambda>v. v \<noteq> 0) ((bucket c rows addr)[r := w])). \<not> v \<noteq> 0"
  shows "table_inv c (rows(addr * bucket_size c + r := w))"
  unfolding table_inv_def
proof (intro allI impI)
  fix addr' :: nat assume a: "addr' < 2 ^ addr_width c"
  show "(\<forall>v\<in>set (bucket c (rows(addr * bucket_size c + r := w)) addr'). v = 0 \<or> occupied c v) \<and>
        (\<forall>v\<in>set (dropWhile (\<lambda>v. v \<noteq> 0) (bucket c (rows(addr * bucket_size c + r := w)) addr')). v = 0)"
  proof (cases "addr' = addr")
    case True
    show ?thesis unfolding True bucket_upd_same [OF assms(3)]
      by (intro conjI assms(4) assms(5) [unfolded not_not])
  next
    case False
    show ?thesis unfolding bucket_upd_other [OF assms(3) False]
      by (rule assms(1) [unfolded table_inv_def, rule_format, OF a])
  qed
qed

lemma table_inv_fill:
  assumes "table_inv c rows" "addr < 2 ^ addr_width c" "occupied c w"
    and "length (filter (\<lambda>v. v \<noteq> 0) (bucket c rows addr)) < bucket_size c"
  shows "table_inv c (rows(addr * bucket_size c + length (filter (\<lambda>v. v \<noteq> 0) (bucket c rows addr)) := w))"
proof (rule table_inv_update [OF assms(1,2,4)])
  note d = table_invD [OF assms(1,2)]
  have w: "w \<noteq> 0" using assms(3) by (rule occupied_nz)
  show "\<forall>v\<in>set ((bucket c rows addr)[length (filter (\<lambda>v. v \<noteq> 0) (bucket c rows addr)) := w]).
          v = 0 \<or> occupied c v"
    using d(1) by (rule full_update(1) [where P = "\<lambda>v. v = 0 \<or> occupied c v"]) (simp add: assms(3))
  have "length (filter (\<lambda>v. v \<noteq> 0) (bucket c rows addr)) < length (bucket c rows addr)"
    unfolding length_bucket by (rule assms(4))
  with d(2) show "\<forall>v\<in>set (dropWhile (\<lambda>v. v \<noteq> 0)
        ((bucket c rows addr)[length (filter (\<lambda>v. v \<noteq> 0) (bucket c rows addr)) := w])). \<not> v \<noteq> 0"
    using w by (rule load_fill)
qed

lemma table_inv_exchange:
  assumes "table_inv c rows" "addr < 2 ^ addr_width c" "occupied c w" "r < bucket_size c"
    and "\<not> length (filter (\<lambda>v. v \<noteq> 0) (bucket c rows addr)) < bucket_size c"
  shows "table_inv c (rows(addr * bucket_size c + r := w))"
proof (rule table_inv_update [OF assms(1,2,4)])
  note d = table_invD [OF assms(1,2)]
  have w: "w \<noteq> 0" using assms(3) by (rule occupied_nz)
  show "\<forall>v\<in>set ((bucket c rows addr)[r := w]). v = 0 \<or> occupied c v"
    using d(1) by (rule full_update(1) [where P = "\<lambda>v. v = 0 \<or> occupied c v"]) (simp add: assms(3))
  have "\<not> length (filter (\<lambda>v. v \<noteq> 0) (bucket c rows addr)) < length (bucket c rows addr)"
    unfolding length_bucket by (rule assms(5))
  then have "\<forall>v\<in>set (bucket c rows addr). v \<noteq> 0" by (rule full_bucket)
  then show "\<forall>v\<in>set (dropWhile (\<lambda>v. v \<noteq> 0) ((bucket c rows addr)[r := w])). \<not> v \<noteq> 0"
    using w by (rule full_update(2))
qed

subsection \<open>The iterations\<close>

lemma put_step_found:
  assumes "addr_row c h k = (addr, row)" "ad \<and> row \<in> set (bucket c rows addr)"
  shows "put_step c ad t rows k h ch = Return FOUND rows"
  unfolding put_step_def assms(1) prod.case Let_def
  by (simp only: assms(2) simp_thms if_True)

lemma put_step_put:
  assumes "table_inv c rows" "addr < 2 ^ addr_width c" "addr_row c h k = (addr, row)"
    and "\<not> (ad \<and> row \<in> set (bucket c rows addr))"
    and "length (filter (\<lambda>v. v \<noteq> 0) (bucket c rows addr)) < bucket_size c"
  shows "put_step c ad t rows k h ch
           = Return PUT (rows(addr * bucket_size c
                + length (filter (\<lambda>v. v \<noteq> 0) (bucket c rows addr)) := row))"
    and "rows (addr * bucket_size c + length (filter (\<lambda>v. v \<noteq> 0) (bucket c rows addr))) = 0"
proof -
  let ?load = "length (filter (\<lambda>v. v \<noteq> 0) (bucket c rows addr))"
  have "?load < length (bucket c rows addr)" unfolding length_bucket by (rule assms(5))
  with table_invD(2) [OF assms(1,2)]
  have "\<not> bucket c rows addr ! ?load \<noteq> 0" by (rule load_slot_empty)
  then show z: "rows (addr * bucket_size c + ?load) = 0"
    unfolding nth_bucket [OF assms(5)] not_not .
  show "put_step c ad t rows k h ch = Return PUT (rows(addr * bucket_size c + ?load := row))"
    unfolding put_step_def assms(3) prod.case Let_def
    by (simp only: assms(4) assms(5) z simp_thms if_True if_False)
qed

lemma put_step_full:
  assumes "addr_row c h k = (addr, row)"
    and "\<not> (ad \<and> row \<in> set (bucket c rows addr))"
    and "\<not> length (filter (\<lambda>v. v \<noteq> 0) (bucket c rows addr)) < bucket_size c"
    and "max_chain_length c \<le> ch"
  shows "put_step c ad t rows k h ch = Return FULL rows"
  unfolding put_step_def assms(1) prod.case Let_def
  by (simp only: assms(2-4) simp_thms if_True if_False)

lemma put_step_evict:
  assumes "wf c" "table_inv c rows" "addr < 2 ^ addr_width c" "addr_row c h k = (addr, row)"
    and "\<not> (ad \<and> row \<in> set (bucket c rows addr))"
    and "\<not> length (filter (\<lambda>v. v \<noteq> 0) (bucket c rows addr)) < bucket_size c"
    and "\<not> max_chain_length c \<le> ch"
  shows "\<exists>h' k'. hash_key c addr (rows (addr * bucket_size c + cuckoor c t ch)) = Some (h', k')
           \<and> h' < n_hash_functions c \<and> k' < 2 ^ key_width c
           \<and> addr_row c h' k' = (addr, rows (addr * bucket_size c + cuckoor c t ch))
           \<and> put_step c ad t rows k h ch
               = Continue (rows(addr * bucket_size c + cuckoor c t ch := row)) k'
                   ((h' + 1) mod n_hash_functions c) (ch + 1)"
    and "occupied c (rows (addr * bucket_size c + cuckoor c t ch))"
proof -
  let ?v = "cuckoor c t ch"
  let ?old = "rows (addr * bucket_size c + ?v)"
  have v: "?v < bucket_size c" using assms(1) by (rule cuckoor_less)
  have "\<not> length (filter (\<lambda>v. v \<noteq> 0) (bucket c rows addr)) < length (bucket c rows addr)"
    unfolding length_bucket by (rule assms(6))
  then have full: "\<forall>x\<in>set (bucket c rows addr). x \<noteq> 0" by (rule full_bucket)
  have mem: "?old \<in> set (bucket c rows addr)"
    using v nth_mem [of ?v "bucket c rows addr"] by (simp only: length_bucket nth_bucket)
  with full have nz: "?old \<noteq> 0" by (rule bspec)
  from table_invD(1) [OF assms(2,3)] mem have "?old = 0 \<or> occupied c ?old" by (rule bspec)
  with nz show occ: "occupied c ?old" by auto
  from hash_key_occupied [OF assms(1) occ assms(3)]
  obtain h' k' where hk: "hash_key c addr ?old = Some (h', k')" "h' < n_hash_functions c"
    "k' < 2 ^ key_width c" "addr_row c h' k' = (addr, ?old)" by blast
  have neq: "\<not> (ad \<and> ?old = row)" using assms(5) mem by blast
  have "put_step c ad t rows k h ch
          = Continue (rows(addr * bucket_size c + ?v := row)) k'
              ((h' + 1) mod n_hash_functions c) (ch + 1)"
    unfolding put_step_def assms(4) prod.case Let_def
    by (simp only: assms(5-7) neq hk(1) simp_thms if_True if_False option.case prod.case)
  with hk show "\<exists>h' k'. hash_key c addr ?old = Some (h', k')
           \<and> h' < n_hash_functions c \<and> k' < 2 ^ key_width c
           \<and> addr_row c h' k' = (addr, ?old)
           \<and> put_step c ad t rows k h ch
               = Continue (rows(addr * bucket_size c + ?v := row)) k'
                   ((h' + 1) mod n_hash_functions c) (ch + 1)" by blast
qed

lemma put_step_good:
  assumes "wf c" "table_inv c rows" "h < n_hash_functions c" "k < 2 ^ key_width c"
  shows "case put_step c ad t rows k h ch of
           Return res rows' \<Rightarrow> table_inv c rows'
         | Continue rows' k' h' ch' \<Rightarrow>
             table_inv c rows' \<and> h' < n_hash_functions c \<and> k' < 2 ^ key_width c
             \<and> ch' = ch + 1 \<and> ch < max_chain_length c
         | Abort \<Rightarrow> False"
proof -
  obtain addr row where ar: "addr_row c h k = (addr, row)" by (cases "addr_row c h k")
  note dec = addr_row_decode [OF assms(1,3,4) ar]
  have occ: "occupied c row" using assms(1,3,4) ar by (rule occupied_addr_row)
  have H: "0 < n_hash_functions c" using assms(1) by (simp add: wf_def)
  let ?load = "length (filter (\<lambda>v. v \<noteq> 0) (bucket c rows addr))"
  consider (found) "ad \<and> row \<in> set (bucket c rows addr)"
    | (put) "\<not> (ad \<and> row \<in> set (bucket c rows addr))" "?load < bucket_size c"
    | (full) "\<not> (ad \<and> row \<in> set (bucket c rows addr))" "\<not> ?load < bucket_size c"
        "max_chain_length c \<le> ch"
    | (evict) "\<not> (ad \<and> row \<in> set (bucket c rows addr))" "\<not> ?load < bucket_size c"
        "\<not> max_chain_length c \<le> ch"
    by blast
  then show ?thesis
  proof cases
    case found
    show ?thesis unfolding put_step_found [OF ar found] step.case by (rule assms(2))
  next
    case put
    show ?thesis unfolding put_step_put(1) [OF assms(2) dec(2) ar put] step.case
      using assms(2) dec(2) occ put(2) by (rule table_inv_fill)
  next
    case full
    show ?thesis unfolding put_step_full [OF ar full] step.case by (rule assms(2))
  next
    case evict
    from put_step_evict(1) [OF assms(1,2) dec(2) ar evict, where t = t]
    obtain h' k' where e: "h' < n_hash_functions c" "k' < 2 ^ key_width c"
      "put_step c ad t rows k h ch
         = Continue (rows(addr * bucket_size c + cuckoor c t ch := row)) k'
             ((h' + 1) mod n_hash_functions c) (ch + 1)" by blast
    have "table_inv c (rows(addr * bucket_size c + cuckoor c t ch := row))"
      using assms(2) dec(2) occ cuckoor_less [OF assms(1)] evict(2) by (rule table_inv_exchange)
    with e(2) evict(3) H show ?thesis unfolding e(3) step.case by simp
  qed
qed

lemma coop_put_loop_rule:
  assumes "wf c" "table_inv c rows" "h < n_hash_functions c" "k < 2 ^ key_width c"
    and ret: "\<And>rows k h ch res rows'. table_inv c rows \<Longrightarrow> h < n_hash_functions c \<Longrightarrow>
          k < 2 ^ key_width c \<Longrightarrow> put_step c (ad::bool) (t::tile) rows k h ch = Return res rows' \<Longrightarrow>
          P rows k h ch res rows'"
    and cont: "\<And>rows k h ch rows1 k1 h1 res rows'. table_inv c rows \<Longrightarrow>
          h < n_hash_functions c \<Longrightarrow> k < 2 ^ key_width c \<Longrightarrow>
          put_step c ad t rows k h ch = Continue rows1 k1 h1 (ch + 1) \<Longrightarrow>
          ch < max_chain_length c \<Longrightarrow>
          table_inv c rows1 \<Longrightarrow> h1 < n_hash_functions c \<Longrightarrow> k1 < 2 ^ key_width c \<Longrightarrow>
          P rows1 k1 h1 (ch + 1) res rows' \<Longrightarrow> P rows k h ch res rows'"
  shows "\<exists>res rows'. coop_put_loop c ad t rows k h ch = Some (res, rows')
           \<and> P rows k h ch res rows'"
  using assms(2-4)
proof (induction "max_chain_length c - ch" arbitrary: rows k h ch rule: less_induct)
  case less
  note good = put_step_good [OF assms(1) less.prems, where ad = ad and t = t and ch = ch]
  show ?case
  proof (cases "put_step c ad t rows k h ch")
    case (Return res rows')
    have "coop_put_loop c ad t rows k h ch = Some (res, rows')"
      by (subst coop_put_loop.simps) (simp only: Return step.case)
    moreover have "P rows k h ch res rows'" using less.prems Return by (rule ret)
    ultimately show ?thesis by blast
  next
    case (Continue rows1 k1 h1 ch1)
    with good have g: "table_inv c rows1" "h1 < n_hash_functions c" "k1 < 2 ^ key_width c"
      "ch1 = ch + 1" "ch < max_chain_length c" by simp_all
    have "max_chain_length c - (ch + 1) < max_chain_length c - ch" using g(5) by simp
    from less.hyps [OF this g(1-3)]
    obtain res rows' where r: "coop_put_loop c ad t rows1 k1 h1 (ch + 1) = Some (res, rows')"
      "P rows1 k1 h1 (ch + 1) res rows'" by blast
    have "coop_put_loop c ad t rows k h ch = Some (res, rows')"
      by (subst coop_put_loop.simps) (simp only: Continue step.case g(4) r(1))
    moreover have "P rows k h ch res rows'"
      using less.prems Continue [unfolded g(4)] g(5) g(1-3) r(2) by (rule cont)
    ultimately show ?thesis by blast
  next
    case Abort
    with good show ?thesis by simp
  qed
qed

subsection \<open>Steps, their effect on the slab, and concrete tables\<close>

lemma Cuckoo_test_table:
  "Cuckoo (rot_permute 21) (rot_permute_inv 21) 3 32 32 64 32 32 21 5 mem
     = Some (test_table, clear test_table mem)"
  by (simp add: Cuckoo_def test_table_def bit_width_3 Let_def)

lemma all_full:
  assumes "\<forall>v\<in>set xs. P v"
  shows "\<not> length (filter P xs) < length xs"
proof -
  have "filter P xs = xs" unfolding filter_id_conv by (rule assms)
  then show ?thesis by simp
qed

lemma bucket_const: "bucket c (\<lambda>j. v) addr = replicate (bucket_size c) v"
  by (simp add: bucket_def map_replicate_const)

lemma table_inv_const:
  assumes "occupied c v"
  shows "table_inv c (\<lambda>j. v)"
proof -
  have v: "v \<noteq> 0" using assms by (rule occupied_nz)
  have "dropWhile (\<lambda>v. v \<noteq> 0) (replicate (bucket_size c) v) = []"
    unfolding dropWhile_eq_Nil_conv using v by simp
  then show ?thesis
    unfolding table_inv_def bucket_const using assms by simp
qed

lemma table_inv_clear:
  assumes "2 ^ addr_width c * bucket_size c \<le> n_rows c"
  shows "table_inv c (clear c mem)"
proof -
  have b: "bucket c (clear c mem) addr = replicate (bucket_size c) 0" if "addr < 2 ^ addr_width c" for addr
  proof -
    have "addr * bucket_size c + r < n_rows c" if "r < bucket_size c" for r
    proof -
      have "addr * bucket_size c + r < (addr + 1) * bucket_size c" using that by simp
      also have "\<dots> \<le> 2 ^ addr_width c * bucket_size c"
        using \<open>addr < 2 ^ addr_width c\<close> by (intro mult_le_mono1) simp
      finally show ?thesis using assms by simp
    qed
    then show ?thesis
      by (intro nth_equalityI) (simp_all add: clear_def)
  qed
  have "dropWhile (\<lambda>v. v \<noteq> 0) (replicate n (0::nat)) = replicate n 0" for n
    by (cases n) simp_all
  then show ?thesis unfolding table_inv_def by (simp add: b)
qed

lemma step_store_simps [simp]:
  "step_store (Return res rows') rows = rows'"
  "step_store (Continue rows' k h ch) rows = rows'"
  "step_store Abort rows = rows"
  by (simp_all add: step_store_def)

lemma step_store_cases:
  assumes "wf c" "table_inv c rows" "h < n_hash_functions c" "k < 2 ^ key_width c"
    and "addr_row c h k = (addr, row)"
  shows "step_store (put_step c ad t rows k h ch) rows = rows
         \<or> (\<exists>r<bucket_size c.
               step_store (put_step c ad t rows k h ch) rows
                 = rows(addr * bucket_size c + r := row)
               \<and> (rows (addr * bucket_size c + r) = 0
                    \<or> occupied c (rows (addr * bucket_size c + r))))"
proof -
  note ar = assms(5)
  note dec = addr_row_decode [OF assms(1,3,4) ar]
  let ?load = "length (filter (\<lambda>v. v \<noteq> 0) (bucket c rows addr))"
  consider (found) "ad \<and> row \<in> set (bucket c rows addr)"
    | (put) "\<not> (ad \<and> row \<in> set (bucket c rows addr))" "?load < bucket_size c"
    | (full) "\<not> (ad \<and> row \<in> set (bucket c rows addr))" "\<not> ?load < bucket_size c"
        "max_chain_length c \<le> ch"
    | (evict) "\<not> (ad \<and> row \<in> set (bucket c rows addr))" "\<not> ?load < bucket_size c"
        "\<not> max_chain_length c \<le> ch"
    by blast
  then show ?thesis
  proof cases
    case found
    show ?thesis unfolding put_step_found [OF ar found] by simp
  next
    case put
    note p = put_step_put [OF assms(2) dec(2) ar put]
    show ?thesis unfolding p(1) step_store_simps using put(2) p(2) by blast
  next
    case full
    show ?thesis unfolding put_step_full [OF ar full] by simp
  next
    case evict
    note e = put_step_evict [OF assms(1,2) dec(2) ar evict, where t = t]
    from e(1) obtain h' k' where "put_step c ad t rows k h ch
         = Continue (rows(addr * bucket_size c + cuckoor c t ch := row)) k'
             ((h' + 1) mod n_hash_functions c) (ch + 1)" by blast
    then show ?thesis unfolding step_store_simps
      using cuckoor_less [OF assms(1), of t ch] e(2) by auto
  qed
qed

lemma iterates_good:
  assumes "wf c" "iterates c ad t (rows0, k0, h0, ch0) (rows, k, h, ch)"
    and "table_inv c rows0" "h0 < n_hash_functions c" "k0 < 2 ^ key_width c"
  shows "table_inv c rows \<and> h < n_hash_functions c \<and> k < 2 ^ key_width c
           \<and> (ch0 \<le> max_chain_length c \<longrightarrow> ch \<le> max_chain_length c)"
  using assms(2-5)
proof (induction "(rows, k, h, ch)" arbitrary: rows k h ch rule: iterates.induct)
  case first
  then show ?case by simp
next
  case (later rows1 k1 h1 ch1 rows k h ch)
  from later.hyps(2) [OF later.prems]
  have g: "table_inv c rows1" "h1 < n_hash_functions c" "k1 < 2 ^ key_width c" by simp_all
  from put_step_good [OF assms(1) g, where ad = ad and t = t and ch = ch1] later.hyps(3)
  show ?case by simp
qed

lemma wf_small_table: "wf small_table"
proof -
  have "\<forall>i<3::nat. \<forall>k<2 ^ 4. rot_permute 4 i k < 2 ^ 4
          \<and> rot_permute_inv 4 i (rot_permute 4 i k) = k"
    using rot_permute_inverse by blast
  then show ?thesis
    by (simp add: wf_def small_table_def key_width_def bit_width_3)
qed

lemmas table_eval = addr_row_def hash_key_def occupied_def mask_of_def mask_eq_exp_minus_1
  rot_permute_def rot_permute_inv_def max_chain_length_def cuckoor_def key_width_def Let_def

lemma table_inv_small_rows: "table_inv small_table small_rows"
  unfolding table_inv_def
proof (intro allI impI)
  fix addr :: nat assume "addr < 2 ^ addr_width small_table"
  then have "addr = 0 \<or> addr = 1" by (auto simp: small_table_def)
  then show "(\<forall>v\<in>set (bucket small_table small_rows addr). v = 0 \<or> occupied small_table v) \<and>
        (\<forall>v\<in>set (dropWhile (\<lambda>v. v \<noteq> 0) (bucket small_table small_rows addr)). v = 0)"
    by (auto simp: bucket_def small_rows_def table_eval small_table_def)
qed

lemma occupied_full_rows: "occupied test_table 1073741829"
  by (simp add: table_eval test_table_def)

lemma table_inv_full_rows: "table_inv test_table full_rows"
  unfolding full_rows_def using occupied_full_rows by (rule table_inv_const)

lemma addr_row_test_42: "addr_row test_table 0 42 = (25, 1073742072)"
  by (simp add: table_eval test_table_def)

lemma full_rows_bucket:
  "\<not> length (filter (\<lambda>v. v \<noteq> 0) (bucket test_table full_rows addr)) < bucket_size test_table"
proof -
  have "\<forall>v\<in>set (bucket test_table full_rows addr). v \<noteq> 0"
    by (simp add: full_rows_def bucket_const)
  then have "\<not> length (filter (\<lambda>v. v \<noteq> 0) (bucket test_table full_rows addr))
               < length (bucket test_table full_rows addr)" by (rule all_full)
  then show ?thesis unfolding length_bucket .
qed

lemma step_test_42:
  "step_store (put_step test_table False tile_4 full_rows 42 0 0) full_rows
     = full_rows(800 := 1073742072)"
proof -
  have a: "(25::nat) < 2 ^ addr_width test_table" by (simp add: test_table_def)
  have m: "\<not> max_chain_length test_table \<le> 0" by (simp add: table_eval test_table_def)
  from put_step_evict(1) [OF wf_test_table table_inv_full_rows a addr_row_test_42 _
      full_rows_bucket m, where ad = False and t = tile_4]
  obtain h' k' where "put_step test_table False tile_4 full_rows 42 0 0 =
      Continue (full_rows(25 * bucket_size test_table + cuckoor test_table tile_4 0 := 1073742072))
        k' ((h' + 1) mod n_hash_functions test_table) (0 + 1)" by auto
  then show ?thesis by (simp add: cuckoor_def tile_4_def test_table_def)
qed

lemma put_step_Continue:
  assumes "wf c" "table_inv c rows" "h < n_hash_functions c" "k < 2 ^ key_width c"
    and "addr_row c h k = (addr, row)"
    and "put_step c ad t rows k h ch = Continue rows1 k1 h1 ch1"
  shows "\<exists>h'. hash_key c addr (rows (addr * bucket_size c + cuckoor c t ch)) = Some (h', k1)
           \<and> h' < n_hash_functions c \<and> k1 < 2 ^ key_width c
           \<and> addr_row c h' k1 = (addr, rows (addr * bucket_size c + cuckoor c t ch))
           \<and> h1 = (h' + 1) mod n_hash_functions c"
    and "rows1 = rows(addr * bucket_size c + cuckoor c t ch := row)"
    and "ch1 = ch + 1" and "ch < max_chain_length c"
    and "\<forall>v\<in>set (bucket c rows addr). v \<noteq> 0"
    and "occupied c (rows (addr * bucket_size c + cuckoor c t ch))"
proof -
  note ar = assms(5)
  note dec = addr_row_decode [OF assms(1,3,4) ar]
  let ?load = "length (filter (\<lambda>v. v \<noteq> 0) (bucket c rows addr))"
  have ev: "\<not> (ad \<and> row \<in> set (bucket c rows addr))" "\<not> ?load < bucket_size c"
        "\<not> max_chain_length c \<le> ch"
  proof -
    show "\<not> (ad \<and> row \<in> set (bucket c rows addr))"
      using put_step_found [OF ar, where ad = ad and rows = rows and t = t and ch = ch] assms(6) by auto
    then show "\<not> ?load < bucket_size c"
      using put_step_put(1) [OF assms(2) dec(2) ar, where ad = ad and t = t and ch = ch] assms(6) by auto
    with \<open>\<not> (ad \<and> row \<in> set (bucket c rows addr))\<close> show "\<not> max_chain_length c \<le> ch"
      using put_step_full [OF ar, where ad = ad and rows = rows and t = t and ch = ch] assms(6) by auto
  qed
  note e = put_step_evict [OF assms(1,2) dec(2) ar ev, where t = t]
  from e(1) assms(6)
  show "\<exists>h'. hash_key c addr (rows (addr * bucket_size c + cuckoor c t ch)) = Some (h', k1)
           \<and> h' < n_hash_functions c \<and> k1 < 2 ^ key_width c
           \<and> addr_row c h' k1 = (addr, rows (addr * bucket_size c + cuckoor c t ch))
           \<and> h1 = (h' + 1) mod n_hash_functions c"
    and "rows1 = rows(addr * bucket_size c + cuckoor c t ch := row)"
    and "ch1 = ch + 1" by auto
  show "ch < max_chain_length c" using ev(3) by simp
  have "\<not> ?load < length (bucket c rows addr)" unfolding length_bucket by (rule ev(2))
  then show "\<forall>v\<in>set (bucket c rows addr). v \<noteq> 0" by (rule full_bucket)
  show "occupied c (rows (addr * bucket_size c + cuckoor c t ch))" by (rule e(2))
qed

lemma put_step_Return:
  assumes "table_inv c rows" "addr < 2 ^ addr_width c" "addr_row c h k = (addr, row)"
    and "put_step c ad t rows k h ch = Return res rows'" and "wf c"
  shows "(res = FOUND \<and> ad \<and> rows' = rows)
       \<or> (res = PUT \<and> rows (addr * bucket_size c
               + length (filter (\<lambda>v. v \<noteq> 0) (bucket c rows addr))) = 0
           \<and> length (filter (\<lambda>v. v \<noteq> 0) (bucket c rows addr)) < bucket_size c
           \<and> rows' = rows(addr * bucket_size c
               + length (filter (\<lambda>v. v \<noteq> 0) (bucket c rows addr)) := row))
       \<or> (res = FULL \<and> rows' = rows \<and> max_chain_length c \<le> ch
           \<and> (\<forall>v\<in>set (bucket c rows addr). v \<noteq> 0))"
proof -
  note ar = assms(3)
  let ?load = "length (filter (\<lambda>v. v \<noteq> 0) (bucket c rows addr))"
  consider (found) "ad \<and> row \<in> set (bucket c rows addr)"
    | (put) "\<not> (ad \<and> row \<in> set (bucket c rows addr))" "?load < bucket_size c"
    | (full) "\<not> (ad \<and> row \<in> set (bucket c rows addr))" "\<not> ?load < bucket_size c"
        "max_chain_length c \<le> ch"
    | (evict) "\<not> (ad \<and> row \<in> set (bucket c rows addr))" "\<not> ?load < bucket_size c"
        "\<not> max_chain_length c \<le> ch"
    by blast
  then show ?thesis
  proof cases
    case found
    from put_step_found [OF ar found, where t = t and ch = ch] assms(4) found show ?thesis by simp
  next
    case put
    note p = put_step_put [OF assms(1,2) ar put]
    from p(1) [where t = t and ch = ch] p(2) assms(4) put(2) show ?thesis by simp
  next
    case full
    have "\<not> ?load < length (bucket c rows addr)" unfolding length_bucket by (rule full(2))
    then have "\<forall>v\<in>set (bucket c rows addr). v \<noteq> 0" by (rule full_bucket)
    with put_step_full [OF ar full, where t = t] assms(4) full(3) show ?thesis by simp
  next
    case evict
    have "\<not> ?load < length (bucket c rows addr)" unfolding length_bucket by (rule evict(2))
    then have full: "\<forall>x\<in>set (bucket c rows addr). x \<noteq> 0" by (rule full_bucket)
    from put_step_evict(1) [OF assms(5,1,2) ar evict, where t = t] assms(4)
    have False by auto
    then show ?thesis ..
  qed
qed

lemma coop_put_small_rows_aux:
  "X = Some (FULL, (\<lambda>j. 0)(Suc 0 := 3221225479, 0 := 2147483655))
   \<Longrightarrow> coop_put small_table False 2 tile_0 small_rows = X"
  unfolding coop_put_def small_rows_def
  apply ((subst coop_put_loop.simps,
      simp (no_asm) add: put_step_def bucket_def table_eval small_table_def tile_0_def
        numeral_2_eq_2 [symmetric])+)
  apply (erule sym)
  done

lemma coop_put_small_rows:
  "coop_put small_table False 2 tile_0 small_rows
     = Some (FULL, (\<lambda>j. 0)(Suc 0 := 3221225479, 0 := 2147483655))"
  by (rule coop_put_small_rows_aux) (rule refl)

text \<open>How the small table and its slab \<open>small_rows\<close> come about: the constructor, then
  the puts of the keys 0 and 1, which both return \<open>PUT\<close>.\<close>

lemma Cuckoo_small_table:
  "Cuckoo (rot_permute 4) (rot_permute_inv 4) 3 1 32 64 32 32 4 1 (\<lambda>j. 0)
     = Some (small_table, (\<lambda>j. 0))"
  by (simp add: Cuckoo_def small_table_def bit_width_3 Let_def clear_def)

lemma coop_put_small_0_aux:
  "X = Some (PUT, (\<lambda>j. 0)(Suc 0 := 1073741831))
   \<Longrightarrow> coop_put small_table False 0 tile_0 (\<lambda>j. 0) = X"
  unfolding coop_put_def
  apply ((subst coop_put_loop.simps,
      simp (no_asm) add: put_step_def bucket_def table_eval small_table_def tile_0_def
        numeral_2_eq_2 [symmetric])+)
  apply (erule sym)
  done

lemma coop_put_small_0:
  "coop_put small_table False 0 tile_0 (\<lambda>j. 0) = Some (PUT, (\<lambda>j. 0)(Suc 0 := 1073741831))"
  by (rule coop_put_small_0_aux) (rule refl)

lemma coop_put_small_1_aux:
  "X = Some (PUT, small_rows)
   \<Longrightarrow> coop_put small_table False 1 tile_0 ((\<lambda>j. 0)(Suc 0 := 1073741831)) = X"
  unfolding coop_put_def small_rows_def
  apply ((subst coop_put_loop.simps,
      simp (no_asm) add: put_step_def bucket_def table_eval small_table_def tile_0_def
        numeral_2_eq_2 [symmetric])+)
  apply (erule sym)
  done

lemma coop_put_small_1:
  "coop_put small_table False 1 tile_0 ((\<lambda>j. 0)(Suc 0 := 1073741831)) = Some (PUT, small_rows)"
  by (rule coop_put_small_1_aux) (rule refl)

text \<open>The iterations of a call, seen from its second iteration.\<close>

lemma iterates_prepend:
  assumes "iterates c ad t (rows1, k1, h1, ch1) s"
    and "put_step c ad t rows k h ch = Continue rows1 k1 h1 ch1"
  shows "iterates c ad t (rows, k, h, ch) s"
  using assms(1)
proof (induction rule: iterates.induct)
  case first
  show ?case by (rule iterates.later [OF iterates.first assms(2)])
next
  case (later rows2 k2 h2 ch2 rows3 k3 h3 ch3)
  show ?case by (rule iterates.later [OF later.IH later.hyps(2)])
qed

lemma coop_put_loop_returns:
  assumes "wf c" "table_inv c rows" "h < n_hash_functions c" "k < 2 ^ key_width c"
  shows "\<exists>res rows'. coop_put_loop c ad t rows k h ch = Some (res, rows')
           \<and> (\<exists>rs ks hs chs. iterates c ad t (rows, k, h, ch) (rs, ks, hs, chs)
                  \<and> put_step c ad t rs ks hs chs = Return res rows')"
proof (rule coop_put_loop_rule [where P = "\<lambda>rows k h ch res rows'.
           \<exists>rs ks hs chs. iterates c ad t (rows, k, h, ch) (rs, ks, hs, chs)
              \<and> put_step c ad t rs ks hs chs = Return res rows'", OF assms])
  fix rows k h ch res rows'
  assume "put_step c ad t rows k h ch = Return res rows'"
  then show "\<exists>rs ks hs chs. iterates c ad t (rows, k, h, ch) (rs, ks, hs, chs)
              \<and> put_step c ad t rs ks hs chs = Return res rows'"
    using iterates.first by blast
next
  fix rows k h ch rows1 k1 h1 res rows'
  assume st: "put_step c ad t rows k h ch = Continue rows1 k1 h1 (ch + 1)"
    and "\<exists>rs ks hs chs. iterates c ad t (rows1, k1, h1, ch + 1) (rs, ks, hs, chs)
              \<and> put_step c ad t rs ks hs chs = Return res rows'"
  then obtain rs ks hs chs where i: "iterates c ad t (rows1, k1, h1, ch + 1) (rs, ks, hs, chs)"
    and r: "put_step c ad t rs ks hs chs = Return res rows'" by blast
  from iterates_prepend [OF i st] r
  show "\<exists>rs ks hs chs. iterates c ad t (rows, k, h, ch) (rs, ks, hs, chs)
              \<and> put_step c ad t rs ks hs chs = Return res rows'" by blast
qed

subsection \<open>The keys of a table before and after a put\<close>

lemma filter_update_count:
  assumes "r < length xs"
  shows "length (filter (\<lambda>v. v = y) (xs[r := w])) + (if y = xs ! r then 1 else 0)
           = length (filter (\<lambda>v. v = y) xs) + (if y = w then 1 else 0)"
proof -
  have xs: "xs = take r xs @ xs ! r # drop (Suc r) xs"
    using assms by (simp add: id_take_nth_drop)
  have "xs[r := w] = take r xs @ w # drop (Suc r) xs"
    using assms by (simp add: upd_conv_take_nth_drop)
  then have "length (filter (\<lambda>v. v = y) (xs[r := w])) + (if y = xs ! r then 1 else 0)
      = length (filter (\<lambda>v. v = y) (take r xs)) + (if y = w then 1 else 0)
        + length (filter (\<lambda>v. v = y) (drop (Suc r) xs)) + (if y = xs ! r then 1 else 0)"
    by auto
  also have "\<dots> = length (filter (\<lambda>v. v = y) (take r xs @ xs ! r # drop (Suc r) xs))
        + (if y = w then 1 else 0)" by auto
  finally show ?thesis using xs by simp
qed

lemma count_update:
  assumes "r < bucket_size c"
  shows "count c (rows(addr * bucket_size c + r := w)) x + holds c addr (rows (addr * bucket_size c + r)) x
           = count c rows x + holds c addr w x"
proof -
  let ?s = "addr * bucket_size c + r"
  have tm: "(case addr_row c hid x of (a, row) \<Rightarrow>
          length (filter (\<lambda>v. v = row) (bucket c (rows(?s := w)) a)))
        + (if addr_row c hid x = (addr, rows ?s) then 1 else 0)
      = (case addr_row c hid x of (a, row) \<Rightarrow> length (filter (\<lambda>v. v = row) (bucket c rows a)))
        + (if addr_row c hid x = (addr, w) then 1 else 0)" for hid
  proof (cases "addr_row c hid x")
    case (Pair a row)
    show ?thesis
    proof (cases "a = addr")
      case True
      have "r < length (bucket c rows addr)" unfolding length_bucket by (rule assms)
      then have "length (filter (\<lambda>v. v = row) ((bucket c rows addr)[r := w]))
              + (if row = bucket c rows addr ! r then 1 else 0)
            = length (filter (\<lambda>v. v = row) (bucket c rows addr)) + (if row = w then 1 else 0)"
        by (rule filter_update_count)
      then show ?thesis
        unfolding Pair True prod.case bucket_upd_same [OF assms] nth_bucket [OF assms]
        by (simp only: prod.inject simp_thms)
    next
      case False
      show ?thesis
        unfolding Pair prod.case bucket_upd_other [OF assms False]
        using False by (simp only: prod.inject simp_thms if_False)
    qed
  qed
  have "(\<Sum>hid\<leftarrow>hs. (case addr_row c hid x of (a, row) \<Rightarrow>
            length (filter (\<lambda>v. v = row) (bucket c (rows(?s := w)) a))))
        + (\<Sum>hid\<leftarrow>hs. if addr_row c hid x = (addr, rows ?s) then 1 else 0)
      = (\<Sum>hid\<leftarrow>hs. (case addr_row c hid x of (a, row) \<Rightarrow>
            length (filter (\<lambda>v. v = row) (bucket c rows a))))
        + (\<Sum>hid\<leftarrow>hs. if addr_row c hid x = (addr, w) then 1 else 0)" for hs
  proof (induction hs)
    case Nil
    show ?case by simp
  next
    case (Cons hid hs)
    from Cons.IH tm [of hid] show ?case by (simp only: list.map sum_list.Cons)
  qed
  then show ?thesis unfolding count_def holds_def .
qed

lemma sum_list_single:
  "(\<Sum>i\<leftarrow>[0..<n]. if i = h \<and> b then 1 else 0) = (if h < n \<and> b then 1 else (0::nat))"
  by (induction n) auto

lemma holds_occupied:
  assumes "wf c" "x < 2 ^ key_width c" "h < n_hash_functions c" "addr_row c h k = (addr, w)"
    and "k < 2 ^ key_width c"
  shows "holds c addr w x = (if x = k then 1 else 0)"
proof -
  have "(addr_row c hid x = (addr, w)) = (hid = h \<and> x = k)" if "hid \<in> set [0..<n_hash_functions c]" for hid
  proof
    assume a: "addr_row c hid x = (addr, w)"
    from that have "hid < n_hash_functions c" by simp
    from addr_row_decode(1) [OF assms(1) this assms(2) a]
      addr_row_decode(1) [OF assms(1,3,5,4)]
    show "hid = h \<and> x = k" by simp
  next
    assume "hid = h \<and> x = k"
    with assms(4) show "addr_row c hid x = (addr, w)" by simp
  qed
  then have "holds c addr w x = (\<Sum>hid\<leftarrow>[0..<n_hash_functions c]. if hid = h \<and> x = k then 1 else 0)"
    unfolding holds_def by (intro arg_cong [where f = sum_list] map_cong refl) simp
  also have "\<dots> = (if x = k then 1 else 0)"
    using assms(3) by (simp add: sum_list_single)
  finally show ?thesis .
qed

lemma holds_empty:
  assumes "wf c" "x < 2 ^ key_width c"
  shows "holds c addr 0 x = 0"
proof -
  have "addr_row c hid x \<noteq> (addr, 0)" if "hid \<in> set [0..<n_hash_functions c]" for hid
  proof
    assume a: "addr_row c hid x = (addr, 0)"
    from that have "hid < n_hash_functions c" by simp
    from addr_row_decode(3) [OF assms(1) this assms(2) a] show False by simp
  qed
  then have "holds c addr 0 x = (\<Sum>hid\<leftarrow>[0..<n_hash_functions c]. 0)"
    unfolding holds_def by (intro arg_cong [where f = sum_list] map_cong refl) simp
  then show ?thesis by simp
qed

lemma put_step_count:
  assumes "wf c" "table_inv c rows" "h < n_hash_functions c" "k < 2 ^ key_width c"
    and "x < 2 ^ key_width c"
  shows "put_step c ad t rows k h ch = Return PUT rows' \<Longrightarrow>
           count c rows' x = count c rows x + (if x = k then 1 else 0)"
    and "put_step c ad t rows k h ch = Return FULL rows' \<Longrightarrow> rows' = rows"
    and "put_step c ad t rows k h ch = Continue rows1 k1 h1 ch1 \<Longrightarrow>
           count c rows1 x + (if x = k1 then 1 else 0) = count c rows x + (if x = k then 1 else 0)"
proof -
  obtain addr row where ar: "addr_row c h k = (addr, row)" by (cases "addr_row c h k")
  note dec = addr_row_decode [OF assms(1,3,4) ar]
  have hr: "holds c addr row x = (if x = k then 1 else 0)"
    using assms(1,5,3) ar assms(4) by (rule holds_occupied)
  {
    assume "put_step c ad t rows k h ch = Return PUT rows'"
    from put_step_Return [OF assms(2) dec(2) ar this assms(1)]
    have p: "rows (addr * bucket_size c + length (filter (\<lambda>v. v \<noteq> 0) (bucket c rows addr))) = 0"
      "length (filter (\<lambda>v. v \<noteq> 0) (bucket c rows addr)) < bucket_size c"
      "rows' = rows(addr * bucket_size c + length (filter (\<lambda>v. v \<noteq> 0) (bucket c rows addr)) := row)"
      by simp_all
    from count_update [OF p(2), where rows = rows and addr = addr and w = row and x = x]
    show "count c rows' x = count c rows x + (if x = k then 1 else 0)"
      unfolding p(3) p(1) holds_empty [OF assms(1,5)] hr by simp
  }
  {
    assume "put_step c ad t rows k h ch = Return FULL rows'"
    from put_step_Return [OF assms(2) dec(2) ar this assms(1)]
    show "rows' = rows" by simp
  }
  {
    assume a: "put_step c ad t rows k h ch = Continue rows1 k1 h1 ch1"
    note e = put_step_Continue [OF assms(1-4) ar a]
    from e(1) obtain h' where h': "h' < n_hash_functions c" "k1 < 2 ^ key_width c"
      "addr_row c h' k1 = (addr, rows (addr * bucket_size c + cuckoor c t ch))" by blast
    have ho: "holds c addr (rows (addr * bucket_size c + cuckoor c t ch)) x = (if x = k1 then 1 else 0)"
      using assms(1,5) h'(1,3,2) by (rule holds_occupied)
    from count_update [OF cuckoor_less [OF assms(1), where t = t and ch = ch],
        where rows = rows and addr = addr and w = row and x = x]
    show "count c rows1 x + (if x = k1 then 1 else 0) = count c rows x + (if x = k then 1 else 0)"
      unfolding e(2) ho hr .
  }
qed

lemma coop_put_loop_count:
  assumes "wf c" "table_inv c rows" "h < n_hash_functions c" "k < 2 ^ key_width c"
  shows "\<exists>res rows'. coop_put_loop c ad t rows k h ch = Some (res, rows')
           \<and> (table_inv c rows'
               \<and> (res = PUT \<longrightarrow> (\<forall>x<2 ^ key_width c.
                      count c rows' x = count c rows x + (if x = k then 1 else 0)))
               \<and> (res = FULL \<longrightarrow> (\<exists>k'<2 ^ key_width c. \<forall>x<2 ^ key_width c.
                      count c rows' x + (if x = k' then 1 else 0)
                        = count c rows x + (if x = k then 1 else 0))))"
proof (rule coop_put_loop_rule [where P = "\<lambda>rows k h ch res rows'. table_inv c rows'
               \<and> (res = PUT \<longrightarrow> (\<forall>x<2 ^ key_width c.
                      count c rows' x = count c rows x + (if x = k then 1 else 0)))
               \<and> (res = FULL \<longrightarrow> (\<exists>k'<2 ^ key_width c. \<forall>x<2 ^ key_width c.
                      count c rows' x + (if x = k' then 1 else 0)
                        = count c rows x + (if x = k then 1 else 0)))", OF assms])
  fix rows k h ch res rows'
  assume g: "table_inv c rows" "h < n_hash_functions c" "k < 2 ^ key_width c"
    and r: "put_step c ad t rows k h ch = Return res rows'"
  from put_step_good [OF assms(1) g, where ad = ad and t = t and ch = ch] r
  have "table_inv c rows'" by simp
  moreover have "\<forall>x<2 ^ key_width c. count c rows' x = count c rows x + (if x = k then 1 else 0)"
    if "res = PUT"
    using put_step_count(1) [OF assms(1) g] r that by blast
  moreover have "\<exists>k'<2 ^ key_width c. \<forall>x<2 ^ key_width c.
        count c rows' x + (if x = k' then 1 else 0) = count c rows x + (if x = k then 1 else 0)"
    if "res = FULL"
  proof -
    have "rows' = rows" using put_step_count(2) [OF assms(1) g g(3)] r that by blast
    with g(3) show ?thesis by blast
  qed
  ultimately show "table_inv c rows'
               \<and> (res = PUT \<longrightarrow> (\<forall>x<2 ^ key_width c.
                      count c rows' x = count c rows x + (if x = k then 1 else 0)))
               \<and> (res = FULL \<longrightarrow> (\<exists>k'<2 ^ key_width c. \<forall>x<2 ^ key_width c.
                      count c rows' x + (if x = k' then 1 else 0)
                        = count c rows x + (if x = k then 1 else 0)))" by blast
next
  fix rows k h ch rows1 k1 h1 res rows'
  assume g: "table_inv c rows" "h < n_hash_functions c" "k < 2 ^ key_width c"
    and s: "put_step c ad t rows k h ch = Continue rows1 k1 h1 (ch + 1)"
    and g1: "k1 < 2 ^ key_width c"
    and ih: "table_inv c rows'
               \<and> (res = PUT \<longrightarrow> (\<forall>x<2 ^ key_width c.
                      count c rows' x = count c rows1 x + (if x = k1 then 1 else 0)))
               \<and> (res = FULL \<longrightarrow> (\<exists>k'<2 ^ key_width c. \<forall>x<2 ^ key_width c.
                      count c rows' x + (if x = k' then 1 else 0)
                        = count c rows1 x + (if x = k1 then 1 else 0)))"
  have st: "count c rows1 x + (if x = k1 then 1 else 0) = count c rows x + (if x = k then 1 else 0)"
    if "x < 2 ^ key_width c" for x
    using put_step_count(3) [OF assms(1) g that s] .
  have "table_inv c rows'" using ih by blast
  moreover have "\<forall>x<2 ^ key_width c. count c rows' x = count c rows x + (if x = k then 1 else 0)"
    if "res = PUT"
  proof (intro allI impI)
    fix x :: nat assume x: "x < 2 ^ key_width c"
    from ih that x have "count c rows' x = count c rows1 x + (if x = k1 then 1 else 0)" by blast
    with st [OF x] show "count c rows' x = count c rows x + (if x = k then 1 else 0)" by simp
  qed
  moreover have "\<exists>k'<2 ^ key_width c. \<forall>x<2 ^ key_width c.
        count c rows' x + (if x = k' then 1 else 0) = count c rows x + (if x = k then 1 else 0)"
    if "res = FULL"
  proof -
    from ih that obtain k' where k': "k' < 2 ^ key_width c"
      "\<forall>x<2 ^ key_width c. count c rows' x + (if x = k' then 1 else 0)
                        = count c rows1 x + (if x = k1 then 1 else 0)" by blast
    have "\<forall>x<2 ^ key_width c. count c rows' x + (if x = k' then 1 else 0)
                        = count c rows x + (if x = k then 1 else 0)"
    proof (intro allI impI)
      fix x :: nat assume x: "x < 2 ^ key_width c"
      from k'(2) x have "count c rows' x + (if x = k' then 1 else 0)
                        = count c rows1 x + (if x = k1 then 1 else 0)" by blast
      with st [OF x] show "count c rows' x + (if x = k' then 1 else 0)
                        = count c rows x + (if x = k then 1 else 0)" by simp
    qed
    with k'(1) show ?thesis by blast
  qed
  ultimately show "table_inv c rows'
               \<and> (res = PUT \<longrightarrow> (\<forall>x<2 ^ key_width c.
                      count c rows' x = count c rows x + (if x = k then 1 else 0)))
               \<and> (res = FULL \<longrightarrow> (\<exists>k'<2 ^ key_width c. \<forall>x<2 ^ key_width c.
                      count c rows' x + (if x = k' then 1 else 0)
                        = count c rows x + (if x = k then 1 else 0)))" by blast
qed

lemma count_small_table:
  "count small_table rows x
     = (\<Sum>hid\<leftarrow>[0, 1, 2]. case addr_row small_table hid x of (addr, row) \<Rightarrow>
          (if rows addr = row then 1 else 0))"
proof -
  have "[0..<n_hash_functions small_table] = [0, 1, 2]"
    by (simp add: small_table_def upt_rec)
  moreover have "bucket small_table rows addr = [rows addr]" for addr
    by (simp add: bucket_def small_table_def)
  ultimately show ?thesis by (simp add: count_def split: prod.split)
qed


section \<open>Claims about the constructor and \<open>coop_put\<close>\<close>

text \<open>
  C5. The claim: a table with address width \<open>A\<close> and bucket size \<open>B\<close> has exactly
  \<open>2 ^ A * B\<close> slots, 1024 for \<open>A = 5\<close> and \<open>B = 32\<close>, and \<open>clear\<close> zeroes that many
  rows. The constructor computes \<open>n_rows\<close> as \<open>2 ^ A * sizeof(row_type) * B\<close>: the table
  of the tests (32-bit rows) gets \<open>n_rows = 4096\<close> where the buckets take \<open>1024\<close> rows,
  and \<open>clear\<close> zeroes the rows up to 4095, also those from 1024 on.
\<close>

theorem Cuckoo_n_rows_test:
  "map_option (\<lambda>(c, rows). (n_rows c, 2 ^ addr_width c * bucket_size c, rows 1023, rows 1024, rows 4095, rows 4096))
     (Cuckoo (rot_permute 21) (rot_permute_inv 21) 3 32 32 64 32 32 21 5 (\<lambda>j. 7))
   = Some (4096, 1024, 0, 0, 0, 7)"
  by (simp add: Cuckoo_test_table clear_def) (simp add: test_table_def)

text \<open>
  C7, as stated, fails. The first tile of block 1 of a launch with 128 threads per block
  and buckets of 32 has global index 4. Its first eviction (chain counter 0) in the full
  bucket 25 leaves the slot of lane \<open>(4 + 0) mod 32\<close> as it was and writes the new row
  into the slot of lane 0.
\<close>

theorem victim_lane_counterexample:
  "step_store (put_step test_table False tile_4 full_rows 42 0 0) full_rows
     (25 * 32 + (spec_global_bucket_index tile_4 32 + 0) mod 32) \<noteq> snd (addr_row test_table 0 42)
   \<and> step_store (put_step test_table False tile_4 full_rows 42 0 0) full_rows (25 * 32 + 0)
       = snd (addr_row test_table 0 42)"
  unfolding step_test_42 addr_row_test_42
  by (simp add: spec_global_bucket_index_def tile_4_def full_rows_def)

text \<open>
  C7, amended. On an eviction step of \<open>coop_put\<close> with chain counter \<open>ch\<close> (the bucket
  of the key is full, the bound is not reached), the slab changes in one slot only, the
  slot of the lane of rank \<open>(blockIdx * blockDim + meta_group_rank + ch) mod bucket_size\<close>
  in that bucket, which receives the new row. When the bucket size divides the block size
  this rank is \<open>(meta_group_rank + ch) mod bucket_size\<close>.
\<close>

theorem eviction_victim_lane:
  assumes "wf c" and "table_inv c rows" and "h < n_hash_functions c" and "k < 2 ^ key_width c"
    and "addr_row c h k = (addr, row)"
    and "\<forall>v\<in>set (bucket c rows addr). v \<noteq> 0"
    and "\<not> (ad \<and> row \<in> set (bucket c rows addr))"
    and "ch < max_chain_length c"
  shows "step_store (put_step c ad t rows k h ch) rows
           = rows(addr * bucket_size c
                    + (blockIdx t * blockDim t + meta_group_rank t + ch) mod bucket_size c := row)
         \<and> (bucket_size c dvd blockDim t \<longrightarrow>
              (blockIdx t * blockDim t + meta_group_rank t + ch) mod bucket_size c
                = (meta_group_rank t + ch) mod bucket_size c)"
proof -
  note dec = addr_row_decode [OF assms(1,3,4,5)]
  have "\<not> length (filter (\<lambda>v. v \<noteq> 0) (bucket c rows addr)) < length (bucket c rows addr)"
    using assms(6) by (rule all_full)
  then have full: "\<not> length (filter (\<lambda>v. v \<noteq> 0) (bucket c rows addr)) < bucket_size c"
    unfolding length_bucket .
  have m: "\<not> max_chain_length c \<le> ch" using assms(8) by simp
  from put_step_evict(1) [OF assms(1,2) dec(2) assms(5,7) full m, where t = t]
  obtain h' k' where "put_step c ad t rows k h ch
       = Continue (rows(addr * bucket_size c + cuckoor c t ch := row)) k'
           ((h' + 1) mod n_hash_functions c) (ch + 1)" by blast
  then have "step_store (put_step c ad t rows k h ch) rows
           = rows(addr * bucket_size c
                    + (blockIdx t * blockDim t + meta_group_rank t + ch) mod bucket_size c := row)"
    by (simp add: cuckoor_eq [OF assms(1)])
  moreover have "(blockIdx t * blockDim t + meta_group_rank t + ch) mod bucket_size c
                = (meta_group_rank t + ch) mod bucket_size c" if "bucket_size c dvd blockDim t"
  proof -
    from that have "bucket_size c dvd blockIdx t * blockDim t" by simp
    then have "(blockIdx t * blockDim t + (meta_group_rank t + ch)) mod bucket_size c
                 = (meta_group_rank t + ch) mod bucket_size c"
      by (metis dvd_eq_mod_eq_0 mod_add_left_eq add_0)
    then show ?thesis by (simp add: add.assoc)
  qed
  ultimately show ?thesis by blast
qed

text \<open>The amended C7 at the input of the counterexample.\<close>

theorem eviction_victim_lane_witness:
  "wf test_table \<and> table_inv test_table full_rows \<and> (0::nat) < n_hash_functions test_table
   \<and> (42::nat) < 2 ^ key_width test_table \<and> addr_row test_table 0 42 = (25, 1073742072)
   \<and> 0 \<notin> set (bucket test_table full_rows 25)
   \<and> (0::nat) < max_chain_length test_table
   \<and> step_store (put_step test_table False tile_4 full_rows 42 0 0) full_rows
       = full_rows(25 * 32 + (1 * 128 + 0 + 0) mod 32 := 1073742072)"
proof -
  have h: "(0::nat) < n_hash_functions test_table" "(42::nat) < 2 ^ key_width test_table"
    "(0::nat) < max_chain_length test_table"
    by (simp_all add: test_table_def key_width_def max_chain_length_def)
  have f: "\<forall>v\<in>set (bucket test_table full_rows 25). v \<noteq> 0"
    by (simp add: full_rows_def bucket_const)
  have d: "\<not> (False \<and> 1073742072 \<in> set (bucket test_table full_rows 25))" by simp
  from eviction_victim_lane [OF wf_test_table table_inv_full_rows h(1,2) addr_row_test_42 f d h(3),
      where t = tile_4]
  have "step_store (put_step test_table False tile_4 full_rows 42 0 0) full_rows
       = full_rows(25 * 32 + (1 * 128 + 0 + 0) mod 32 := 1073742072)"
    by (simp add: tile_4_def test_table_def)
  moreover have "0 \<notin> set (bucket test_table full_rows 25)" using f by blast
  ultimately show ?thesis
    using wf_test_table table_inv_full_rows h addr_row_test_42 by blast
qed

text \<open>
  C2. In every iteration of the loop of a call of \<open>coop_put\<close> on a table that puts have
  built, a slot that was nonzero stays nonzero, and a slot whose value changes (by the
  compare-and-swap or by the exchange) receives a nonzero row of an occupied state; the
  value it replaces is 0 or, in an eviction, an occupied row.
\<close>

theorem coop_put_writes_occupied:
  assumes "wf c" and "table_inv c rows0" and "k0 < 2 ^ key_width c"
    and "iterates c ad t (rows0, k0, 0, 0) (rows, k, h, ch)"
  shows "\<forall>j. (rows j \<noteq> 0 \<longrightarrow> step_store (put_step c ad t rows k h ch) rows j \<noteq> 0)
           \<and> (step_store (put_step c ad t rows k h ch) rows j \<noteq> rows j \<longrightarrow>
                occupied c (step_store (put_step c ad t rows k h ch) rows j)
                \<and> step_store (put_step c ad t rows k h ch) rows j \<noteq> 0
                \<and> (rows j = 0 \<or> occupied c (rows j)))"
proof -
  have H: "0 < n_hash_functions c" using assms(1) by (simp add: wf_def)
  from iterates_good [OF assms(1,4,2) H assms(3)]
  have g: "table_inv c rows" "h < n_hash_functions c" "k < 2 ^ key_width c" by simp_all
  obtain addr row where ar: "addr_row c h k = (addr, row)" by (cases "addr_row c h k")
  have occ: "occupied c row" using assms(1) g(2,3) ar by (rule occupied_addr_row)
  then have nz: "row \<noteq> 0" by (rule occupied_nz)
  from step_store_cases [OF assms(1) g ar, where ad = ad and t = t and ch = ch]
  consider (same) "step_store (put_step c ad t rows k h ch) rows = rows"
    | (upd) r where
        "step_store (put_step c ad t rows k h ch) rows = rows(addr * bucket_size c + r := row)"
        "rows (addr * bucket_size c + r) = 0 \<or> occupied c (rows (addr * bucket_size c + r))"
    by blast
  then show ?thesis
  proof cases
    case same
    then show ?thesis by simp
  next
    case upd
    show ?thesis unfolding upd(1) using occ nz upd(2) by (simp add: fun_upd_def)
  qed
qed

text \<open>C2 at the first iteration of the put of key 2 into the full small table.\<close>

theorem coop_put_writes_occupied_witness:
  "wf small_table \<and> table_inv small_table small_rows \<and> (2::nat) < 2 ^ key_width small_table
   \<and> iterates small_table False tile_0 (small_rows, 2, 0, 0) (small_rows, 2, 0, 0)
   \<and> occupied small_table (step_store (put_step small_table False tile_0 small_rows 2 0 0) small_rows 1)
   \<and> step_store (put_step small_table False tile_0 small_rows 2 0 0) small_rows 1 \<noteq> small_rows 1"
proof -
  have k: "(2::nat) < 2 ^ key_width small_table" by (simp add: small_table_def key_width_def)
  have i: "iterates small_table False tile_0 (small_rows, 2, 0, 0) (small_rows, 2, 0, 0)"
    by (rule iterates.first)
  have n: "step_store (put_step small_table False tile_0 small_rows 2 0 0) small_rows 1 \<noteq> small_rows 1"
    by (simp add: put_step_def bucket_def table_eval small_table_def small_rows_def tile_0_def)
  from coop_put_writes_occupied [OF wf_small_table table_inv_small_rows k i] n
  have "occupied small_table (step_store (put_step small_table False tile_0 small_rows 2 0 0) small_rows 1)"
    by blast
  with wf_small_table table_inv_small_rows k i n show ?thesis by blast
qed

text \<open>
  C6. In the sequential embedding, a call of \<open>coop_put\<close> on a table that puts have
  built returns, and what it returns is what the last of its iterations returns.
  \<open>max_chain_length\<close> is \<open>20 * n_hash_functions\<close>; the chain counter never exceeds it; when the probed bucket is full (and duplicate avoidance does not find the
  key) the iteration returns \<open>FULL\<close> if the counter has reached the bound and otherwise
  evicts a row and goes on with the key recovered from it, the hash id
  \<open>(h' + 1) mod n_hash_functions\<close> for the recovered hash id \<open>h'\<close>, and the counter plus
  one. The loop goes on only so, below the bound and adding one to the counter: a call
  evicts at most \<open>20 * n_hash_functions\<close> rows.
\<close>

theorem coop_put_terminates:
  assumes "wf c" and "table_inv c rows0" and "k0 < 2 ^ key_width c"
  shows "(\<exists>res rows'. coop_put c ad k0 t rows0 = Some (res, rows')
            \<and> (\<exists>rows k h ch. iterates c ad t (rows0, k0, 0, 0) (rows, k, h, ch)
                   \<and> put_step c ad t rows k h ch = Return res rows'))
     \<and> max_chain_length c = 20 * n_hash_functions c
     \<and> (\<forall>rows k h ch. iterates c ad t (rows0, k0, 0, 0) (rows, k, h, ch) \<longrightarrow>
          ch \<le> max_chain_length c
          \<and> (\<forall>addr row. addr_row c h k = (addr, row) \<and> (\<forall>v\<in>set (bucket c rows addr). v \<noteq> 0)
                 \<and> \<not> (ad \<and> row \<in> set (bucket c rows addr)) \<longrightarrow>
               (if max_chain_length c \<le> ch
                then put_step c ad t rows k h ch = Return FULL rows
                else \<exists>h' k'. hash_key c addr (rows (addr * bucket_size c + cuckoor c t ch))
                                = Some (h', k')
                       \<and> put_step c ad t rows k h ch
                           = Continue (rows(addr * bucket_size c + cuckoor c t ch := row)) k'
                               ((h' + 1) mod n_hash_functions c) (ch + 1)))
          \<and> (\<forall>rows' k' h' ch'. put_step c ad t rows k h ch = Continue rows' k' h' ch' \<longrightarrow>
                 ch < max_chain_length c \<and> ch' = ch + 1))"
proof (intro conjI allI impI)
  have H: "0 < n_hash_functions c" using assms(1) by (simp add: wf_def)
  show "\<exists>res rows'. coop_put c ad k0 t rows0 = Some (res, rows')
            \<and> (\<exists>rows k h ch. iterates c ad t (rows0, k0, 0, 0) (rows, k, h, ch)
                   \<and> put_step c ad t rows k h ch = Return res rows')"
    unfolding coop_put_def by (rule coop_put_loop_returns [OF assms(1,2) H assms(3)])
  show "max_chain_length c = 20 * n_hash_functions c" by (simp add: max_chain_length_def)
  fix rows k h ch
  assume it: "iterates c ad t (rows0, k0, 0, 0) (rows, k, h, ch)"
  from iterates_good [OF assms(1) it assms(2) H assms(3)]
  have g: "table_inv c rows" "h < n_hash_functions c" "k < 2 ^ key_width c"
    and ch: "ch \<le> max_chain_length c" by simp_all
  show "ch \<le> max_chain_length c" by (rule ch)
  {
    fix rows' k' h' ch'
    assume "put_step c ad t rows k h ch = Continue rows' k' h' ch'"
    with put_step_good [OF assms(1) g, where ad = ad and t = t and ch = ch]
    show "ch < max_chain_length c" and "ch' = ch + 1" by simp_all
  }
  fix addr row
  assume a: "addr_row c h k = (addr, row) \<and> (\<forall>v\<in>set (bucket c rows addr). v \<noteq> 0)
                 \<and> \<not> (ad \<and> row \<in> set (bucket c rows addr))"
  then have ar: "addr_row c h k = (addr, row)" and nd: "\<not> (ad \<and> row \<in> set (bucket c rows addr))"
    and fb: "\<forall>v\<in>set (bucket c rows addr). v \<noteq> 0" by (rule conjunct1, rule conjunct2 [THEN conjunct2], rule conjunct2 [THEN conjunct1])
  from fb have "\<not> length (filter (\<lambda>v. v \<noteq> 0) (bucket c rows addr)) < length (bucket c rows addr)"
    by (rule all_full)
  then have full: "\<not> length (filter (\<lambda>v. v \<noteq> 0) (bucket c rows addr)) < bucket_size c"
    unfolding length_bucket .
  note dec = addr_row_decode [OF assms(1) g(2,3) ar]
  show "if max_chain_length c \<le> ch
        then put_step c ad t rows k h ch = Return FULL rows
        else \<exists>h' k'. hash_key c addr (rows (addr * bucket_size c + cuckoor c t ch)) = Some (h', k')
               \<and> put_step c ad t rows k h ch
                   = Continue (rows(addr * bucket_size c + cuckoor c t ch := row)) k'
                       ((h' + 1) mod n_hash_functions c) (ch + 1)"
  proof (cases "max_chain_length c \<le> ch")
    case True
    with put_step_full [OF ar nd full True] show ?thesis by simp
  next
    case False
    from put_step_evict(1) [OF assms(1) g(1) dec(2) ar nd full False, where t = t] False
    show ?thesis by auto
  qed
qed

text \<open>C6 at the put of key 2 into the full small table, which returns \<open>FULL\<close>.\<close>

theorem coop_put_terminates_witness:
  "wf small_table \<and> table_inv small_table small_rows \<and> (2::nat) < 2 ^ key_width small_table
   \<and> (\<exists>res rows'. coop_put small_table False 2 tile_0 small_rows = Some (res, rows'))
   \<and> max_chain_length small_table = 60
   \<and> map_option fst (coop_put small_table False 2 tile_0 small_rows) = Some FULL"
proof -
  have k: "(2::nat) < 2 ^ key_width small_table" by (simp add: small_table_def key_width_def)
  have "\<exists>res rows'. coop_put small_table False 2 tile_0 small_rows = Some (res, rows')"
    using coop_put_terminates [OF wf_small_table table_inv_small_rows k,
          where ad = False and t = tile_0, THEN conjunct1] by blast
  moreover have "max_chain_length small_table = 60"
    by (simp add: max_chain_length_def small_table_def)
  moreover from coop_put_small_rows
  have "map_option fst (coop_put small_table False 2 tile_0 small_rows) = Some FULL"
    by simp
  ultimately show ?thesis using wf_small_table table_inv_small_rows k by blast
qed


section \<open>What \<open>FULL\<close> means for the table\<close>

text \<open>
  On every well-formed table whose slab was built by puts, a put of \<open>k\<close> that returns
  \<open>FULL\<close> leaves one key \<open>k'\<close> of the universe out: for every key \<open>x\<close>, \<open>count x\<close>
  afterwards plus one if \<open>x = k'\<close> is \<open>count x\<close> before plus one if \<open>x = k\<close>. The loop
  returns at the bound while it holds the key it evicted last; nothing is rolled back.
\<close>

lemma coop_put_FULL_leaves_out_one_key:
  assumes "wf c" and "table_inv c rows" and "k < 2 ^ key_width c"
    and "coop_put c ad k t rows = Some (FULL, rows')"
  shows "\<exists>k'<2 ^ key_width c. \<forall>x<2 ^ key_width c.
           count c rows' x + (if x = k' then 1 else 0) = count c rows x + (if x = k then 1 else 0)"
proof -
  have H: "0 < n_hash_functions c" using assms(1) by (simp add: wf_def)
  from coop_put_loop_count [OF assms(1,2) H assms(3), where ad = ad and t = t and ch = 0]
    assms(4)
  show ?thesis unfolding coop_put_def by auto
qed

text \<open>
  C4. The claim is that whenever \<open>coop_put\<close> returns \<open>FULL\<close> for an inserted key \<open>k\<close>,
  \<open>k\<close> is not in the table afterwards while every key evicted during the chain is; the
  comments of \<open>find_or_put_sorted\<close> and \<open>find_or_put\<close> say the same of \<open>FULL\<close> (the key
  "could not be put in"). The code does not do that. The constructor builds the small
  table \<open>Cuckoo<uint32_t, 1, _, 3>(4, 1)\<close>; the puts of the keys 0 and 1 into the cleared
  table return \<open>PUT\<close> and fill its two buckets; the put of key 2 then returns \<open>FULL\<close>,
  and afterwards key 2, the inserted key, is in the table (it was not before), and key 1,
  which was in the table and was evicted during the chain, is not.
\<close>

theorem coop_put_FULL_small_table:
  "Cuckoo (rot_permute 4) (rot_permute_inv 4) 3 1 32 64 32 32 4 1 (\<lambda>j. 0)
     = Some (small_table, (\<lambda>j. 0))
   \<and> coop_put small_table False 0 tile_0 (\<lambda>j. 0) = Some (PUT, (\<lambda>j. 0)(Suc 0 := 1073741831))
   \<and> coop_put small_table False 1 tile_0 ((\<lambda>j. 0)(Suc 0 := 1073741831))
       = Some (PUT, small_rows)
   \<and> map_option fst (coop_put small_table False 2 tile_0 small_rows) = Some FULL
   \<and> count small_table small_rows 2 = 0
   \<and> count small_table (snd (the (coop_put small_table False 2 tile_0 small_rows))) 2 = 1
   \<and> count small_table small_rows 1 = 1
   \<and> count small_table (snd (the (coop_put small_table False 2 tile_0 small_rows))) 1 = 0"
  unfolding coop_put_small_rows coop_put_small_0 coop_put_small_1 Cuckoo_small_table
    option.sel snd_conv count_small_table
  by (simp add: small_rows_def table_eval small_table_def numeral_2_eq_2 [symmetric])

section \<open>The dispatchers\<close>

subsection \<open>Runs\<close>

lemma bind_run_simps [simp]:
  "bind_run (Done x) f = f x" "bind_run (Fault e) f = Fault e" "bind_run Hang f = Hang"
  by (simp_all add: bind_run_def)

lemma bind_run_Done [simp]: "bind_run m Done = m"
  by (cases m) simp_all

lemma bind_run_assoc: "bind_run (bind_run m f) g = bind_run m (\<lambda>x. bind_run (f x) g)"
  by (cases m) simp_all

lemma fold_run_append: "fold_run f (xs @ ys) s = bind_run (fold_run f xs s) (fold_run f ys)"
proof (induction xs arbitrary: s)
  case Nil
  show ?case by simp
next
  case (Cons x xs)
  show ?case
  proof (cases "f x s")
    case (Done s')
    then show ?thesis using Cons.IH [of s'] by simp
  qed simp_all
qed

lemma fold_run_map: "fold_run f (map g xs) s = fold_run (\<lambda>x. f (g x)) xs s"
proof (induction xs arbitrary: s)
  case Nil
  show ?case by simp
next
  case (Cons x xs)
  show ?case
  proof (cases "f (g x) s")
    case (Done s')
    then show ?thesis using Cons.IH [of s'] by simp
  qed simp_all
qed

lemma fold_run_cong:
  assumes "\<And>x s. x \<in> set xs \<Longrightarrow> f x s = g x s"
  shows "fold_run f xs s = fold_run g xs s"
  using assms
proof (induction xs arbitrary: s)
  case Nil
  show ?case by simp
next
  case (Cons x xs)
  have e: "f x s = g x s" by (rule Cons.prems) simp
  show ?case
  proof (cases "g x s")
    case (Done s')
    have "fold_run f xs s' = fold_run g xs s'" by (rule Cons.IH) (simp add: Cons.prems)
    with Done e show ?thesis by simp
  qed (simp_all add: e)
qed

lemma fold_run_idle:
  assumes "\<And>x s. x \<in> set xs \<Longrightarrow> f x s = Done s"
  shows "fold_run f xs s = Done s"
  using assms by (induction xs arbitrary: s) simp_all


lemma map_run_Done:
  assumes "\<And>x. x \<in> set xs \<Longrightarrow> f x = Done (g x)"
  shows "map_run f xs = Done (map g xs)"
  using assms by (induction xs) simp_all

subsection \<open>The ballot loop\<close>

lemma act_lane_idle: "\<not> lane_to_act l \<Longrightarrow> act_lane F t it l s = Done s"
  by (cases s) (simp add: act_lane_def)

lemma act_lane_active:
  "lane_to_act l \<Longrightarrow> act_lane F t it l (results, st)
     = (case lane_k l of
          None \<Rightarrow> Fault UninitKey
        | Some key \<Rightarrow>
            (case F key t st of
               None \<Rightarrow> Hang
             | Some (res, st') \<Rightarrow>
                 bind_run (write_res it results (lane_i l) res) (\<lambda>results'. Done (results', st'))))"
  by (simp add: act_lane_def)

lemma ffs_leader:
  assumes "True \<in> set (map lane_to_act lanes)"
  shows "\<exists>pre l post. lanes = pre @ l # post \<and> lane_to_act l \<and> (\<forall>x\<in>set pre. \<not> lane_to_act x)
           \<and> ffs (map lane_to_act lanes) - 1 = length pre"
proof -
  let ?pre = "takeWhile (\<lambda>l. \<not> lane_to_act l) lanes"
  let ?rest = "dropWhile (\<lambda>l. \<not> lane_to_act l) lanes"
  have "?rest \<noteq> []" using assms by (auto simp: dropWhile_eq_Nil_conv)
  then obtain l post where r: "?rest = l # post" by (cases ?rest) auto
  have a: "lane_to_act l" using hd_dropWhile [of "\<lambda>l. \<not> lane_to_act l" lanes] r by auto
  have "lanes = ?pre @ l # post" using takeWhile_dropWhile_id [of "\<lambda>l. \<not> lane_to_act l" lanes] r
    by simp
  moreover have "\<forall>x\<in>set ?pre. \<not> lane_to_act x" by (auto dest: set_takeWhileD)
  moreover have "ffs (map lane_to_act lanes) - 1 = length ?pre"
    using assms by (simp add: ffs_def takeWhile_map comp_def)
  ultimately show ?thesis using a by blast
qed

lemma ballot_loop_fold:
  "ballot_loop F t it lanes results st = fold_run (act_lane F t it) lanes (results, st)"
proof (induction F t it lanes results st rule: ballot_loop.induct)
  case (1 F t it lanes results st)
  show ?case
  proof (cases "True \<in> set (map lane_to_act lanes)")
    case False
    then have "\<And>x s. x \<in> set lanes \<Longrightarrow> act_lane F t it x s = Done s"
      by (auto intro!: act_lane_idle)
    then have "fold_run (act_lane F t it) lanes (results, st) = Done (results, st)"
      by (rule fold_run_idle)
    moreover have "ballot_loop F t it lanes results st = Done (results, st)"
      using False by (subst ballot_loop.simps) simp
    ultimately show ?thesis by simp
  next
    case mem: True
    from ffs_leader [OF mem] obtain pre l post where
      sp: "lanes = pre @ l # post" and a: "lane_to_act l"
      and idle: "\<forall>x\<in>set pre. \<not> lane_to_act x"
      and ld: "ffs (map lane_to_act lanes) - 1 = length pre" by blast
    have nth: "lanes ! length pre = l" by (simp add: sp)
    have upd: "lanes[length pre := l\<lparr>lane_to_act := False\<rparr>] = pre @ l\<lparr>lane_to_act := False\<rparr> # post"
      by (simp add: sp)
    have pre_idle: "fold_run (act_lane F t it) pre s = Done s" for s
      by (rule fold_run_idle) (simp add: idle act_lane_idle)
    have rhs: "fold_run (act_lane F t it) lanes (results, st)
          = bind_run (act_lane F t it l (results, st)) (fold_run (act_lane F t it) post)"
      by (simp add: sp fold_run_append pre_idle)
    have eq: "ballot_loop F t it lanes results st
          = (case lane_k l of
                None \<Rightarrow> Fault UninitKey
              | Some key \<Rightarrow>
                  (case F key t st of
                     None \<Rightarrow> Hang
                   | Some (res, st') \<Rightarrow>
                       (case write_res it results (lane_i l) res of
                          Done results' \<Rightarrow>
                            ballot_loop F t it (lanes[length pre := l\<lparr>lane_to_act := False\<rparr>])
                              results' st'
                        | Fault e \<Rightarrow> Fault e
                        | Hang \<Rightarrow> Hang)))"
      apply (subst ballot_loop.simps)
      apply (unfold Let_def ld nth)
      apply (simp only: mem simp_thms if_False)
      done
    show ?thesis
    proof (cases "lane_k l")
      case None
      then show ?thesis by (simp add: eq rhs act_lane_active [OF a])
    next
      case (Some key)
      note lk = Some
      show ?thesis
      proof (cases "F key t st")
        case None
        then show ?thesis by (simp add: eq rhs act_lane_active [OF a] lk)
      next
        case (Some x)
        obtain res st' where x: "x = (res, st')" by (cases x)
        note Fk = Some [unfolded x]
        show ?thesis
        proof (cases "write_res it results (lane_i l) res")
          case (Done results')
          have "ballot_loop F t it (lanes[length pre := l\<lparr>lane_to_act := False\<rparr>]) results' st'
                = fold_run (act_lane F t it)
                             (lanes[length pre := l\<lparr>lane_to_act := False\<rparr>]) (results', st')"
            using "1.IH" [OF refl _ refl, of key "(res, st')" res st' results'] mem
            by (simp only: ld nth lk Fk Done simp_thms)
          also have "\<dots> = fold_run (act_lane F t it) post (results', st')"
            by (simp add: upd fold_run_append pre_idle act_lane_idle)
          finally show ?thesis
            by (simp add: eq rhs act_lane_active [OF a] lk Fk Done)
        next
          case (Fault e)
          then show ?thesis by (simp add: eq rhs act_lane_active [OF a] lk Fk)
        next
          case Hang
          then show ?thesis by (simp add: eq rhs act_lane_active [OF a] lk Fk)
        qed
      qed
    qed
  qed
qed

subsection \<open>The lanes of a tile\<close>


lemma sorted_lane_valid:
  assumes "\<forall>j<len. start j \<noteq> None"
  shows "sorted_lane start len index i
     = Done \<lparr> lane_i = i, lane_k = (if i < len then start i else None), lane_in_range = i < len,
              lane_first = (i < len \<and> (index = 0 \<or> start i \<noteq> start (i - 1))),
              lane_to_act = (i < len \<and> (index = 0 \<or> start i \<noteq> start (i - 1))) \<rparr>"
proof (cases "i < len")
  case False
  then show ?thesis by (simp add: sorted_lane_def)
next
  case True
  then obtain k where k: "start i = Some k" using assms by auto
  from True have "i - 1 < len" by simp
  then obtain q where q: "start (i - Suc 0) = Some q" using assms by auto
  show ?thesis using True by (simp add: sorted_lane_def read_key_def k q)
qed



subsection \<open>The grid-stride loop\<close>







lemma coop_sorted_body:
  assumes "\<forall>j<len. start j \<noteq> None"
  shows "bind_run (map_run (\<lambda>rank. sorted_lane start len (tile_index t B rank) (i + rank)) [0..<B])
     (\<lambda>lanes. ballot_loop F t it lanes results st)
   = fold_run (act_lane F t it) (sorted_lanes start len B (tile_index t B 0) i) (results, st)"
proof -
  have "map_run (\<lambda>rank. sorted_lane start len (tile_index t B rank) (i + rank)) [0..<B]
        = Done (sorted_lanes start len B (tile_index t B 0) i)"
    unfolding sorted_lanes_def
    by (rule map_run_Done) (simp add: sorted_lane_valid [OF assms] tile_index_def)
  then show ?thesis by (simp add: ballot_loop_fold)
qed


lemma coop_sorted_fold:
  assumes "\<forall>j<len. start j \<noteq> None"
  shows "coop_sorted F c start len it t
     = grid_stride (\<lambda>i. fold_run (act_lane F t it)
                          (sorted_lanes start len (bucket_size c) (tile_index t (bucket_size c) 0) i))
         (gridDim t * blockDim t)
         (((len + bucket_size c - 1) div bucket_size c) * bucket_size c)
         (tile_index t (bucket_size c) 0)"
  unfolding coop_sorted_def Let_def
  by (rule arg_cong [where f = "\<lambda>b. grid_stride b _ _ _"])
    (simp add: fun_eq_iff coop_sorted_body [OF assms])




subsection \<open>Launches that cover the range in one grid stride\<close>

lemma grid_stride_once:
  assumes "mx \<le> stride"
  shows "grid_stride body stride mx i s = (if i < mx then body i s else Done s)"
proof (cases "i < mx")
  case False
  then show ?thesis by (subst grid_stride.simps) simp
next
  case True
  with assms have st: "stride \<noteq> 0" by simp
  have nx: "\<not> i + stride < mx" using assms by simp
  have "grid_stride body stride mx (i + stride) s' = Done s'" for s'
    using nx by (subst grid_stride.simps) simp
  then have "grid_stride body stride mx (i + stride) = Done" by (intro ext)
  then show ?thesis using True st by (subst grid_stride.simps) simp
qed

lemma fold_run_concat:
  "fold_run f (concat xss) s = fold_run (\<lambda>xs. fold_run f xs) xss s"
proof (induction xss arbitrary: s)
  case Nil
  show ?case by simp
next
  case (Cons xs xss)
  show ?case
  proof (cases "fold_run f xs s")
    case (Done s')
    then show ?thesis using Cons.IH [of s'] by (simp add: fold_run_append)
  qed (simp_all add: fold_run_append)
qed

lemma fold_run_nested:
  "fold_run (\<lambda>t. fold_run (g t) (ps t)) ts s
     = fold_run (\<lambda>(t, i). g t i) (concat (map (\<lambda>t. map (Pair t) (ps t)) ts)) s"
proof -
  have "fold_run (\<lambda>(t, i). g t i) (concat (map (\<lambda>t. map (Pair t) (ps t)) ts)) s
        = fold_run (\<lambda>t. fold_run (\<lambda>(t, i). g t i) (map (Pair t) (ps t))) ts s"
    by (simp add: fold_run_concat fold_run_map)
  also have "\<dots> = fold_run (\<lambda>t. fold_run (g t) (ps t)) ts s"
    by (rule fold_run_cong) (simp add: fold_run_map)
  finally show ?thesis by simp
qed

lemma round_up_le:
  fixes B m len :: nat
  assumes "0 < B" "B dvd m" "len \<le> m"
  shows "((len + B - 1) div B) * B \<le> m"
proof -
  from assms(2) obtain q where q: "m = B * q" by (auto simp: dvd_def)
  have "(q + 1) * B = B * q + B" by simp
  then have "len + B - 1 < (q + 1) * B" using assms(1,3) q by linarith
  then have "(len + B - 1) div B < q + 1" by (rule less_mult_imp_div_less)
  then have "(len + B - 1) div B \<le> q" by simp
  then have "((len + B - 1) div B) * B \<le> q * B" by (rule mult_le_mono1)
  then show ?thesis using q by (simp add: mult.commute)
qed

lemma round_up_ge: "0 < B \<Longrightarrow> len \<le> ((len + B - 1) div B) * B" for B len :: nat
proof -
  assume B: "0 < B"
  have "len + B - 1 = ((len + B - 1) div B) * B + (len + B - 1) mod B" by simp
  moreover have "(len + B - 1) mod B < B" using B by simp
  ultimately show ?thesis by linarith
qed

text \<open>The positions of the tiles of a launch, in the order of the tiles.\<close>

lemma tile_of_position:
  assumes "0 < B" "m < bd div B" "B dvd bd" "r < B"
  shows "tile_of n bd B (b * bd + (m * B + r))
           = \<lparr> gridDim = n, blockDim = bd, blockIdx = b, meta_group_rank = m \<rparr>"
proof -
  have "(m + 1) * B \<le> (bd div B) * B" using assms(2) by (intro mult_le_mono1) simp
  also have "\<dots> = bd" using assms(3) by simp
  finally have lt: "m * B + r < bd" using assms(4) by simp
  then have "(b * bd + (m * B + r)) div bd = b" "(b * bd + (m * B + r)) mod bd = m * B + r"
    by simp_all
  moreover have "(m * B + r) div B = m" using assms(1,4) by simp
  ultimately show ?thesis by (simp add: tile_of_def)
qed

lemma block_positions:
  assumes "0 < B" "B dvd bd" "q \<le> bd div B"
  shows "concat (map (\<lambda>m. map (Pair \<lparr> gridDim = n, blockDim = bd, blockIdx = b,
                                       meta_group_rank = m \<rparr>)
                          [b * bd + m * B..<b * bd + m * B + B]) [0..<q])
         = map (\<lambda>i. (tile_of n bd B i, i)) [b * bd..<b * bd + q * B]"
  using assms(3)
proof (induction q)
  case 0
  show ?case by simp
next
  case (Suc q)
  have q: "q < bd div B" "q \<le> bd div B" using Suc.prems by simp_all
  have sp: "[b * bd..<b * bd + Suc q * B]
          = [b * bd..<b * bd + q * B] @ [b * bd + q * B..<b * bd + q * B + B]"
    using upt_add_eq_append [of "b * bd" "b * bd + q * B" B] by (simp add: add.commute add.left_commute)
  have last: "map (Pair \<lparr> gridDim = n, blockDim = bd, blockIdx = b, meta_group_rank = q \<rparr>)
                 [b * bd + q * B..<b * bd + q * B + B]
            = map (\<lambda>i. (tile_of n bd B i, i)) [b * bd + q * B..<b * bd + q * B + B]"
  proof (rule map_cong [OF refl])
    fix i assume "i \<in> set [b * bd + q * B..<b * bd + q * B + B]"
    then obtain r where r: "i = b * bd + (q * B + r)" "r < B"
      by (auto simp: nat_le_iff_add)
    show "(\<lparr> gridDim = n, blockDim = bd, blockIdx = b, meta_group_rank = q \<rparr>, i)
          = (tile_of n bd B i, i)"
      unfolding r(1) tile_of_position [OF assms(1) q(1) assms(2) r(2)] ..
  qed
  show ?case unfolding sp using Suc.IH [OF q(2)] last by simp
qed

lemma tiles_positions:
  assumes "0 < B" "B dvd bd"
  shows "concat (map (\<lambda>t. map (Pair t) [tile_index t B 0..<tile_index t B 0 + B]) (tiles n bd B))
         = map (\<lambda>i. (tile_of n bd B i, i)) [0..<n * bd]"
proof -
  have bdB: "(bd div B) * B = bd" using assms(2) by simp
  have blk: "concat (map (\<lambda>t. map (Pair t) [tile_index t B 0..<tile_index t B 0 + B])
                 (map (\<lambda>m. \<lparr> gridDim = n, blockDim = bd, blockIdx = b, meta_group_rank = m \<rparr>)
                    [0..<bd div B]))
           = map (\<lambda>i. (tile_of n bd B i, i)) [b * bd..<b * bd + bd]" for b
    using block_positions [OF assms, of "bd div B" n b]
    by (simp add: tile_index_def comp_def bdB)
  have "concat (map (\<lambda>t. map (Pair t) [tile_index t B 0..<tile_index t B 0 + B])
           (concat (map (\<lambda>b. map (\<lambda>m. \<lparr> gridDim = n, blockDim = bd, blockIdx = b,
                                         meta_group_rank = m \<rparr>) [0..<bd div B]) [0..<k])))
        = map (\<lambda>i. (tile_of n bd B i, i)) [0..<k * bd]" for k
  proof (induction k)
    case 0
    show ?case by simp
  next
    case (Suc k)
    have sp: "[0..<Suc k * bd] = [0..<k * bd] @ [k * bd..<k * bd + bd]"
      using upt_add_eq_append [of 0 "k * bd" bd] by (simp add: add.commute)
    show ?case unfolding sp using Suc.IH blk [of k] by simp
  qed
  then show ?thesis by (simp add: tiles_def)
qed

lemma tiles_geometry:
  assumes "t \<in> set (tiles n bd B)"
  shows "gridDim t = n" "blockDim t = bd"
  using assms by (auto simp: tiles_def)

lemma launch_positions:
  assumes "0 < B" "B dvd bd"
    and "\<And>t s. gridDim t = n \<Longrightarrow> blockDim t = bd \<Longrightarrow>
           f t s = fold_run (h t) [tile_index t B 0..<tile_index t B 0 + B] s"
  shows "launch n bd B f s = fold_run (\<lambda>i. h (tile_of n bd B i) i) [0..<n * bd] s"
proof -
  have "launch n bd B f s
        = fold_run (\<lambda>t. fold_run (h t) [tile_index t B 0..<tile_index t B 0 + B]) (tiles n bd B) s"
    unfolding launch_def by (rule fold_run_cong) (rule assms(3), (rule tiles_geometry, assumption)+)
  also have "\<dots> = fold_run (\<lambda>(t, i). h t i)
       (concat (map (\<lambda>t. map (Pair t) [tile_index t B 0..<tile_index t B 0 + B]) (tiles n bd B))) s"
    by (rule fold_run_nested)
  also have "\<dots> = fold_run (\<lambda>i. h (tile_of n bd B i) i) [0..<n * bd] s"
    unfolding tiles_positions [OF assms(1,2)] by (simp add: fold_run_map)
  finally show ?thesis .
qed

lemma fold_run_upto:
  assumes "len \<le> m" and "\<And>i s. i < len \<Longrightarrow> f i s = g i s"
    and "\<And>i s. len \<le> i \<Longrightarrow> f i s = Done s"
  shows "fold_run f [0..<m] s = fold_run g [0..<len] s"
proof -
  have sp: "[0..<m] = [0..<len] @ [len..<m]"
    using assms(1) upt_add_eq_append [of 0 len "m - len"] by simp
  have a: "fold_run f [0..<len] s = fold_run g [0..<len] s"
    by (rule fold_run_cong) (simp add: assms(2))
  have b: "fold_run f [len..<m] s' = Done s'" for s'
    by (rule fold_run_idle) (simp add: assms(3))
  then have "fold_run f [len..<m] = Done" by (intro ext)
  then show ?thesis unfolding sp fold_run_append a by simp
qed

lemma sorted_lanes_at:
  "sorted_lanes start len B i i = map (sorted_lane_at start len) [i..<i + B]"
proof -
  have "[i..<i + B] = map (\<lambda>rank. i + rank) [0..<B]"
    using map_add_upt [of i B] by (simp add: add.commute)
  then show ?thesis by (simp add: sorted_lanes_def sorted_lane_at_def comp_def)
qed

lemma act_sorted_lane_at:
  assumes "\<forall>j<len. start j = Some (kf j)" and "\<forall>j<len. it j = Some (p j)"
  shows "act_lane F (tile_at i) it (sorted_lane_at start len i) s
           = (if i < len then probe_first F kf p tile_at i s else Done s)"
proof (cases "i < len")
  case False
  then show ?thesis by (simp add: act_lane_idle sorted_lane_at_def)
next
  case True
  obtain results st where s: "s = (results, st)" by (cases s)
  have k: "start i = Some (kf i)" and a: "it i = Some (p i)" using True assms by simp_all
  have "i - 1 < len" using True by simp
  then have "start (i - 1) = Some (kf (i - 1))" using assms(1) by blast
  then have fst: "(i = 0 \<or> start i \<noteq> start (i - 1)) = (i = 0 \<or> kf i \<noteq> kf (i - 1))"
    by (simp add: k)
  show ?thesis
  proof (cases "i = 0 \<or> kf i \<noteq> kf (i - 1)")
    case False
    with fst have "\<not> lane_to_act (sorted_lane_at start len i)"
      unfolding sorted_lane_at_def by simp
    then have "act_lane F (tile_at i) it (sorted_lane_at start len i) s = Done s"
      by (rule act_lane_idle)
    moreover have "probe_first F kf p tile_at i s = Done s"
      unfolding probe_first_def s using False by (simp only: if_False case_prod_conv)
    ultimately show ?thesis using True by simp
  next
    case f: True
    with fst True have ta: "lane_to_act (sorted_lane_at start len i)"
      unfolding sorted_lane_at_def by simp
    have lk: "lane_k (sorted_lane_at start len i) = Some (kf i)"
      and li: "lane_i (sorted_lane_at start len i) = i"
      using True by (simp_all add: sorted_lane_at_def k)
    have "probe_first F kf p tile_at i s
          = (case F (kf i) (tile_at i) st of None \<Rightarrow> Hang
             | Some (res, st') \<Rightarrow> Done (results(p i := res), st'))"
      unfolding probe_first_def s using f by (simp only: if_True case_prod_conv)
    moreover have "act_lane F (tile_at i) it (sorted_lane_at start len i) s
          = (case F (kf i) (tile_at i) st of None \<Rightarrow> Hang
             | Some (res, st') \<Rightarrow> Done (results(p i := res), st'))"
      unfolding s act_lane_active [OF ta] lk li
      by (simp add: write_res_def a split: option.split)
    ultimately show ?thesis using True by simp
  qed
qed

lemma coop_sorted_tile_once:
  assumes "0 < bucket_size c"
    and "((len + bucket_size c - 1) div bucket_size c) * bucket_size c \<le> gridDim t * blockDim t"
    and "\<forall>j<len. start j \<noteq> None"
  shows "coop_sorted F c start len it t s
     = fold_run (\<lambda>i. act_lane F t it (sorted_lane_at start len i))
         [tile_index t (bucket_size c) 0..<tile_index t (bucket_size c) 0 + bucket_size c] s"
proof -
  let ?B = "bucket_size c" and ?i = "tile_index t (bucket_size c) 0"
  let ?mx = "((len + ?B - 1) div ?B) * ?B"
  have eq: "coop_sorted F c start len it t s
        = (if ?i < ?mx then fold_run (act_lane F t it) (sorted_lanes start len ?B ?i ?i) s
           else Done s)"
    by (subst coop_sorted_fold [OF assms(3)], subst grid_stride_once [OF assms(2)], rule refl)
  show ?thesis
  proof (cases "?i < ?mx")
    case True
    then show ?thesis unfolding eq by (simp add: sorted_lanes_at fold_run_map)
  next
    case False
    have "len \<le> ?mx" using assms(1) by (rule round_up_ge)
    with False have "\<And>i. i \<in> set [?i..<?i + ?B] \<Longrightarrow> \<not> lane_to_act (sorted_lane_at start len i)"
      by (simp add: sorted_lane_at_def)
    then have "fold_run (\<lambda>i. act_lane F t it (sorted_lane_at start len i)) [?i..<?i + ?B] s = Done s"
      by (intro fold_run_idle act_lane_idle)
    with False show ?thesis unfolding eq by simp
  qed
qed

lemma launch_coop_sorted:
  assumes "0 < bucket_size c" "bucket_size c dvd bd" "len \<le> n * bd"
    and "\<forall>j<len. start j = Some (kf j)" and "\<forall>j<len. it j = Some (p j)"
  shows "launch n bd (bucket_size c) (coop_sorted F c start len it) s
         = fold_run (probe_first F kf p (tile_of n bd (bucket_size c))) [0..<len] s"
proof -
  let ?B = "bucket_size c"
  have v: "\<forall>j<len. start j \<noteq> None" using assms(4) by simp
  have mx: "((len + ?B - 1) div ?B) * ?B \<le> n * bd"
    using assms(1) _ assms(3) by (rule round_up_le) (simp add: assms(2))
  have "launch n bd ?B (coop_sorted F c start len it) s
        = fold_run (\<lambda>i. act_lane F (tile_of n bd ?B i) it (sorted_lane_at start len i)) [0..<n * bd] s"
  proof (rule launch_positions [OF assms(1,2)])
    fix t :: tile and s :: "(nat \<Rightarrow> 'a) \<times> 'b"
    assume g: "gridDim t = n" "blockDim t = bd"
    show "coop_sorted F c start len it t s
          = fold_run (\<lambda>i. act_lane F t it (sorted_lane_at start len i))
              [tile_index t ?B 0..<tile_index t ?B 0 + ?B] s"
      by (rule coop_sorted_tile_once [OF assms(1) _ v]) (unfold g, rule mx)
  qed
  also have "\<dots> = fold_run (probe_first F kf p (tile_of n bd ?B)) [0..<len] s"
    by (rule fold_run_upto [OF assms(3)])
      (simp_all add: act_sorted_lane_at [where kf = kf and p = p, OF assms(4,5)])
  finally show ?thesis .
qed

lemma fold_run_commute:
  assumes "\<And>x s. x \<in> set xs \<Longrightarrow> f x (g s) = bind_run (f x s) (\<lambda>s'. Done (g s'))"
  shows "fold_run f xs (g s) = bind_run (fold_run f xs s) (\<lambda>s'. Done (g s'))"
  using assms
proof (induction xs arbitrary: s)
  case Nil
  show ?case by simp
next
  case (Cons x xs)
  have x: "f x (g s) = bind_run (f x s) (\<lambda>s'. Done (g s'))" by (rule Cons.prems) simp
  have IH: "fold_run f xs (g s') = bind_run (fold_run f xs s') (\<lambda>s'. Done (g s'))" for s'
    by (rule Cons.IH) (simp add: Cons.prems)
  show ?case
  proof (cases "f x s")
    case (Done s1)
    then show ?thesis by (simp add: x IH)
  qed (simp_all add: x)
qed

lemma fold_run_interleave:
  assumes "distinct (map key xs)"
    and "\<And>x y s. x \<in> set xs \<Longrightarrow> y \<in> set xs \<Longrightarrow> key x \<noteq> key y \<Longrightarrow>
           f y (g x s) = bind_run (f y s) (\<lambda>s'. Done (g x s'))"
  shows "bind_run (fold_run f xs s) (fold_run (\<lambda>x s. Done (g x s)) xs)
         = fold_run (\<lambda>x s. bind_run (f x s) (\<lambda>s'. Done (g x s'))) xs s"
  using assms
proof (induction xs arbitrary: s)
  case Nil
  show ?case by simp
next
  case (Cons x xs)
  have d: "distinct (map key xs)" and nx: "\<And>y. y \<in> set xs \<Longrightarrow> key x \<noteq> key y"
    using Cons.prems(1) by auto
  have IH: "bind_run (fold_run f xs s') (fold_run (\<lambda>x s. Done (g x s)) xs)
         = fold_run (\<lambda>x s. bind_run (f x s) (\<lambda>s'. Done (g x s'))) xs s'" for s'
    by (rule Cons.IH [OF d]) (simp add: Cons.prems(2))
  have com: "fold_run f xs (g x s') = bind_run (fold_run f xs s') (\<lambda>s'. Done (g x s'))" for s'
    by (rule fold_run_commute) (simp add: Cons.prems(2) nx)
  show ?case
  proof (cases "f x s")
    case (Done s1)
    have e: "fold_run (\<lambda>x s. Done (g x s)) (x # xs)
               = (\<lambda>s2. fold_run (\<lambda>x s. Done (g x s)) xs (g x s2))"
      by (intro ext) simp
    have lhs: "bind_run (fold_run f (x # xs) s) (fold_run (\<lambda>x s. Done (g x s)) (x # xs))
          = bind_run (fold_run f xs s1)
              (\<lambda>s2. fold_run (\<lambda>x s. Done (g x s)) xs (g x s2))"
      unfolding e by (simp add: Done)
    have rhs: "fold_run (\<lambda>x s. bind_run (f x s) (\<lambda>s'. Done (g x s'))) (x # xs) s
          = fold_run (\<lambda>x s. bind_run (f x s) (\<lambda>s'. Done (g x s'))) xs (g x s1)"
      by (simp add: Done)
    have "bind_run (fold_run f xs s1) (\<lambda>s2. fold_run (\<lambda>x s. Done (g x s)) xs (g x s2))
          = bind_run (bind_run (fold_run f xs s1) (\<lambda>s'. Done (g x s')))
                        (fold_run (\<lambda>x s. Done (g x s)) xs)"
      by (simp add: bind_run_assoc)
    also have "\<dots> = bind_run (fold_run f xs (g x s1)) (fold_run (\<lambda>x s. Done (g x s)) xs)"
      by (simp add: com)
    also have "\<dots> = fold_run (\<lambda>x s. bind_run (f x s) (\<lambda>s'. Done (g x s'))) xs (g x s1)"
      by (rule IH)
    finally show ?thesis unfolding lhs rhs .
  qed simp_all
qed

subsection \<open>The second pass of the sorted find-or-put\<close>

lemma put_lane_valid:
  assumes "\<forall>j<len. start j = Some (kf j)" and "\<forall>j<len. it j = Some (p j)"
  shows "put_lane start len it R i i = Done (put_lane_at start len p R i)"
proof -
  have v: "\<forall>j<len. start j \<noteq> None" using assms(1) by simp
  show ?thesis
  proof (cases "i < len")
    case False
    then show ?thesis
      by (simp add: put_lane_def sorted_lane_valid [OF v] put_lane_at_def)
  next
    case True
    then have "it i = Some (p i)" using assms(2) by simp
    then show ?thesis using True
      by (simp add: put_lane_def sorted_lane_valid [OF v] put_lane_at_def read_res_def)
  qed
qed

lemma put_lanes_valid:
  assumes "\<forall>j<len. start j = Some (kf j)" and "\<forall>j<len. it j = Some (p j)"
  shows "map_run (\<lambda>rank. put_lane start len it R (i0 + rank) (i0 + rank)) [0..<B]
           = Done (map (put_lane_at start len p R) [i0..<i0 + B])"
proof -
  have "[i0..<i0 + B] = map (\<lambda>rank. i0 + rank) [0..<B]"
    using map_add_upt [of i0 B] by (simp add: add.commute)
  then have "map (put_lane_at start len p R) [i0..<i0 + B]
             = map (\<lambda>rank. put_lane_at start len p R (i0 + rank)) [0..<B]"
    by (simp add: comp_def)
  then show ?thesis
    by (simp only: map_run_Done [where g = "\<lambda>rank. put_lane_at start len p R (i0 + rank)",
          OF put_lane_valid [OF assms]])
qed

lemma store_found_fold:
  assumes "\<forall>j<len. it j = Some (p j)"
    and "\<forall>l\<in>set lanes. lane_in_range l \<longrightarrow> lane_i l < len"
  shows "bind_run (fold_run (\<lambda>l res. if lane_in_range l \<and> \<not> lane_first l
                                       then write_res it res (lane_i l) FOUND
                                       else Done res) lanes R)
           (\<lambda>R'. Done (R', rows))
         = fold_run (\<lambda>l s. Done (store_found p l s)) lanes (R, rows)"
  using assms(2)
proof (induction lanes arbitrary: R)
  case Nil
  show ?case by simp
next
  case (Cons l lanes)
  have IH: "bind_run (fold_run (\<lambda>l res. if lane_in_range l \<and> \<not> lane_first l
                                       then write_res it res (lane_i l) FOUND
                                       else Done res) lanes R')
           (\<lambda>R'. Done (R', rows))
         = fold_run (\<lambda>l s. Done (store_found p l s)) lanes (R', rows)" for R'
    by (rule Cons.IH) (simp add: Cons.prems)
  show ?case
  proof (cases "lane_in_range l \<and> \<not> lane_first l")
    case False
    then show ?thesis using IH [of R] by (auto simp: store_found_def)
  next
    case True
    then have "lane_i l < len" using Cons.prems by simp
    then have "write_res it R (lane_i l) FOUND = Done (R(p (lane_i l) := FOUND))"
      using assms(1) by (simp add: write_res_def)
    then show ?thesis using True IH [of "R(p (lane_i l) := FOUND)"] by (simp add: store_found_def)
  qed
qed

lemma act_put_lane_at:
  assumes "\<forall>j<len. start j = Some (kf j)" and "\<forall>j<len. it j = Some (p j)"
    and "lane_to_act (put_lane_at start len p R i)"
  shows "act_lane (coop_put c False) t it (put_lane_at start len p R i) (R', rows)
           = (case coop_put c False (kf i) t rows of
                None \<Rightarrow> Hang
              | Some (res, rows') \<Rightarrow> Done (R'(p i := res), rows'))"
proof -
  from assms(3) have i: "i < len" by (simp add: put_lane_at_def)
  then have k: "lane_k (put_lane_at start len p R i) = Some (kf i)"
    and li: "lane_i (put_lane_at start len p R i) = i"
    using assms(1) by (simp_all add: put_lane_at_def)
  have a: "it i = Some (p i)" using i assms(2) by simp
  show ?thesis unfolding act_lane_active [OF assms(3)] k li
    by (simp add: write_res_def a split: option.split)
qed

lemma act_store_found_commute:
  assumes "\<forall>j<len. start j = Some (kf j)" and "\<forall>j<len. it j = Some (p j)"
    and "inj_on p {..<len}" and "i \<noteq> j"
  shows "act_lane (coop_put c False) t it (put_lane_at start len p R j)
             (store_found p (put_lane_at start len p R i) s)
         = bind_run (act_lane (coop_put c False) t it (put_lane_at start len p R j) s)
             (\<lambda>s'. Done (store_found p (put_lane_at start len p R i) s'))"
proof (cases "lane_to_act (put_lane_at start len p R j)")
  case False
  then show ?thesis by (simp add: act_lane_idle)
next
  case True
  then have j: "j < len" by (simp add: put_lane_at_def)
  obtain R' rows where s: "s = (R', rows)" by (cases s)
  show ?thesis
  proof (cases "lane_in_range (put_lane_at start len p R i)
                  \<and> \<not> lane_first (put_lane_at start len p R i)")
    case False
    then have "store_found p (put_lane_at start len p R i) = (\<lambda>s. s)"
      by (auto simp: store_found_def fun_eq_iff)
    then show ?thesis by simp
  next
    case dup: True
    then have i: "i < len" by (simp add: put_lane_at_def)
    have ne: "p i \<noteq> p j" using assms(3,4) i j by (auto simp: inj_on_def)
    have sf: "store_found p (put_lane_at start len p R i) (Q, rws) = (Q(p i := FOUND), rws)"
      for Q rws
      using dup by (simp add: store_found_def put_lane_at_def)
    show ?thesis unfolding s sf act_put_lane_at [OF assms(1,2) True]
      using ne by (auto simp: sf fun_upd_twist split: option.split)
  qed
qed

lemma put_lane_at_step:
  assumes "\<forall>j<len. start j = Some (kf j)" and "\<forall>j<len. it j = Some (p j)"
  shows "bind_run (act_lane (coop_put c False) t it (put_lane_at start len p R i) s)
           (\<lambda>s'. Done (store_found p (put_lane_at start len p R i) s'))
         = (if i < len then put_first c kf p (\<lambda>_. t) R i s else Done s)"
proof (cases "i < len")
  case False
  then have "\<not> lane_to_act (put_lane_at start len p R i)"
    and "store_found p (put_lane_at start len p R i) s = s"
    by (auto simp: put_lane_at_def store_found_def split: prod.split)
  then show ?thesis using False by (simp add: act_lane_idle)
next
  case True
  obtain R' rows where s: "s = (R', rows)" by (cases s)
  have k: "start i = Some (kf i)" using True assms(1) by simp
  have "i - 1 < len" using True by simp
  then have "start (i - 1) = Some (kf (i - 1))" using assms(1) by blast
  then have fst: "(i = 0 \<or> start i \<noteq> start (i - 1)) = (i = 0 \<or> kf i \<noteq> kf (i - 1))"
    by (simp add: k)
  show ?thesis
  proof (cases "i = 0 \<or> kf i \<noteq> kf (i - 1)")
    case False
    with fst True have na: "\<not> lane_to_act (put_lane_at start len p R i)"
      and sf: "store_found p (put_lane_at start len p R i) (R', rows) = (R'(p i := FOUND), rows)"
      unfolding put_lane_at_def store_found_def by simp_all
    have "put_first c kf p (\<lambda>_. t) R i s = Done (R'(p i := FOUND), rows)"
      unfolding put_first_def s using False by (simp only: if_False case_prod_conv)
    then show ?thesis using True by (simp add: act_lane_idle [OF na] s sf)
  next
    case f: True
    with fst True have sf: "store_found p (put_lane_at start len p R i) = (\<lambda>s. s)"
      unfolding put_lane_at_def store_found_def by (simp add: fun_eq_iff)
    show ?thesis
    proof (cases "R (p i) \<noteq> FOUND")
      case False
      with fst have na: "\<not> lane_to_act (put_lane_at start len p R i)"
        unfolding put_lane_at_def by simp
      have "put_first c kf p (\<lambda>_. t) R i s = Done s"
        unfolding put_first_def s using f False by (simp only: if_True if_False case_prod_conv simp_thms)
      then show ?thesis using True by (simp add: act_lane_idle [OF na] sf)
    next
      case pend: True
      with fst f \<open>i < len\<close> have ta: "lane_to_act (put_lane_at start len p R i)"
        unfolding put_lane_at_def by simp
      have "put_first c kf p (\<lambda>_. t) R i s
            = (case coop_put c False (kf i) t rows of
                None \<Rightarrow> Hang
              | Some (res, rows') \<Rightarrow> Done (R'(p i := res), rows'))"
        unfolding put_first_def s using f pend by (simp only: if_True case_prod_conv simp_thms)
      then show ?thesis using True
        by (simp add: s sf act_put_lane_at [OF assms ta])
    qed
  qed
qed

lemma tile_index_rank: "tile_index t B rank = tile_index t B 0 + rank"
  by (simp add: tile_index_def)

lemma put_visit_tile: "put_visit c kf p (\<lambda>_. tile_at i) len i = put_visit c kf p tile_at len i"
  by (simp add: put_visit_def put_first_def fun_eq_iff)

lemma put_first_frame:
  assumes "put_first c kf p tile_at Q i (R, rows) = Done (R', rows')"
  shows "\<forall>a. a \<noteq> p i \<longrightarrow> R' a = R a"
  using assms by (auto simp: put_first_def split: if_splits option.splits)

lemma put_first_reads:
  assumes "Q (p i) = Q' (p i)"
  shows "put_first c kf p tile_at Q i = put_first c kf p tile_at Q' i"
  unfolding put_first_def by (simp only: assms)

lemma put_visit_fixed:
  assumes "inj_on p {..<len}" and "distinct L" and "\<forall>i\<in>set L. i < len \<longrightarrow> R (p i) = R0 (p i)"
  shows "fold_run (put_visit c kf p tile_at len) L (R, rows)
         = fold_run (\<lambda>i s. if i < len then put_first c kf p tile_at R0 i s else Done s) L (R, rows)"
  using assms(2,3)
proof (induction L arbitrary: R rows)
  case Nil
  show ?case by simp
next
  case (Cons i L)
  have d: "distinct L" and ni: "i \<notin> set L" using Cons.prems(1) by simp_all
  show ?case
  proof (cases "i < len")
    case False
    have "fold_run (put_visit c kf p tile_at len) L (R, rows)
          = fold_run (\<lambda>i s. if i < len then put_first c kf p tile_at R0 i s else Done s) L (R, rows)"
      by (rule Cons.IH [OF d]) (simp add: Cons.prems(2))
    moreover have "put_visit c kf p tile_at len i (R, rows) = Done (R, rows)"
      using False by (simp add: put_visit_def)
    ultimately show ?thesis using False by simp
  next
    case True
    have "R (p i) = R0 (p i)" using True Cons.prems(2) by simp
    then have "put_first c kf p tile_at R i = put_first c kf p tile_at R0 i"
      by (rule put_first_reads)
    then have hd: "put_visit c kf p tile_at len i (R, rows) = put_first c kf p tile_at R0 i (R, rows)"
      using True by (simp add: put_visit_def)
    show ?thesis
    proof (cases "put_first c kf p tile_at R0 i (R, rows)")
      case (Done s')
      obtain R' rows' where s': "s' = (R', rows')" by (cases s')
      from put_first_frame [OF Done [unfolded s']]
      have fr: "\<forall>a. a \<noteq> p i \<longrightarrow> R' a = R a" .
      have "\<forall>j\<in>set L. j < len \<longrightarrow> R' (p j) = R0 (p j)"
      proof (intro ballI impI)
        fix j assume j: "j \<in> set L" "j < len"
        with ni have "j \<noteq> i" by auto
        with assms(1) j(2) True have "p j \<noteq> p i" by (auto simp: inj_on_def)
        with fr have "R' (p j) = R (p j)" by simp
        with Cons.prems(2) j show "R' (p j) = R0 (p j)" by simp
      qed
      from Cons.IH [OF d this, of rows'] show ?thesis using True by (simp add: hd Done s')
    qed (simp_all add: hd True)
  qed
qed

lemma put_tile_once:
  assumes "0 < bucket_size c"
    and "((len + bucket_size c - 1) div bucket_size c) * bucket_size c \<le> gridDim t * blockDim t"
    and "\<forall>j<len. start j = Some (kf j)" and "\<forall>j<len. it j = Some (p j)"
    and "inj_on p {..<len}"
  shows "put_if_not_found_sorted c start len it t s
     = fold_run (put_visit c kf p (\<lambda>_. t) len)
         [tile_index t (bucket_size c) 0..<tile_index t (bucket_size c) 0 + bucket_size c] s"
proof -
  let ?B = "bucket_size c" and ?i = "tile_index t (bucket_size c) 0"
  let ?mx = "((len + ?B - 1) div ?B) * ?B"
  let ?F = "coop_put c False"
  obtain R rows where s: "s = (R, rows)" by (cases s)
  let ?lanes = "map (put_lane_at start len p R) [?i..<?i + ?B]"
  have body: "bind_run (map_run (\<lambda>rank. put_lane start len it R (tile_index t ?B rank) (?i + rank))
                          [0..<?B])
                (\<lambda>lanes.
                   bind_run (ballot_loop ?F t it lanes R rows)
                     (\<lambda>(results', rows').
                        bind_run
                          (fold_run (\<lambda>l res. if lane_in_range l \<and> \<not> lane_first l
                                              then write_res it res (lane_i l) FOUND
                                              else Done res) lanes results')
                          (\<lambda>results''. Done (results'', rows'))))
       = fold_run (\<lambda>i s. if i < len then put_first c kf p (\<lambda>_. t) R i s else Done s)
           [?i..<?i + ?B] (R, rows)"
  proof -
    have ld: "map_run (\<lambda>rank. put_lane start len it R (tile_index t ?B rank) (?i + rank)) [0..<?B]
              = Done ?lanes"
      by (subst tile_index_rank) (rule put_lanes_valid [OF assms(3,4)])
    have rg: "\<forall>l\<in>set ?lanes. lane_in_range l \<longrightarrow> lane_i l < len"
      by (auto simp: put_lane_at_def)
    have post: "(\<lambda>(results', rows').
                        bind_run
                          (fold_run (\<lambda>l res. if lane_in_range l \<and> \<not> lane_first l
                                              then write_res it res (lane_i l) FOUND
                                              else Done res) ?lanes results')
                          (\<lambda>results''. Done (results'', rows')))
          = fold_run (\<lambda>l s. Done (store_found p l s)) ?lanes"
      by (auto simp: fun_eq_iff store_found_fold [OF assms(4) rg])
    have dl: "distinct (map lane_i ?lanes)"
      by (simp add: comp_def put_lane_at_def)
    have "bind_run (fold_run (act_lane ?F t it) ?lanes (R, rows))
            (fold_run (\<lambda>l s. Done (store_found p l s)) ?lanes)
          = fold_run (\<lambda>l s. bind_run (act_lane ?F t it l s) (\<lambda>s'. Done (store_found p l s')))
              ?lanes (R, rows)"
    proof (rule fold_run_interleave [OF dl])
      fix x y s
      assume "x \<in> set ?lanes" "y \<in> set ?lanes" "lane_i x \<noteq> lane_i y"
      then obtain i j where x: "x = put_lane_at start len p R i"
        and y: "y = put_lane_at start len p R j" and "lane_i x \<noteq> lane_i y"
        by auto
      then have "i \<noteq> j" by auto
      with x y show "act_lane ?F t it y (store_found p x s)
                 = bind_run (act_lane ?F t it y s) (\<lambda>s'. Done (store_found p x s'))"
        unfolding x y by (intro act_store_found_commute [OF assms(3,4,5)])
    qed
    also have "\<dots> = fold_run (\<lambda>i s. if i < len then put_first c kf p (\<lambda>_. t) R i s else Done s)
                        [?i..<?i + ?B] (R, rows)"
      by (simp add: fold_run_map put_lane_at_step [OF assms(3,4)])
    finally show ?thesis by (simp add: ld ballot_loop_fold post)
  qed
  have cur: "fold_run (\<lambda>i s. if i < len then put_first c kf p (\<lambda>_. t) R i s else Done s)
           [?i..<?i + ?B] (R, rows)
        = fold_run (put_visit c kf p (\<lambda>_. t) len) [?i..<?i + ?B] (R, rows)"
    by (rule put_visit_fixed [OF assms(5), symmetric]) simp_all
  have eq: "put_if_not_found_sorted c start len it t s
        = (if ?i < ?mx then fold_run (put_visit c kf p (\<lambda>_. t) len) [?i..<?i + ?B] s else Done s)"
    unfolding put_if_not_found_sorted_def Let_def
    apply (subst grid_stride_once [OF assms(2)])
    apply (simp only: s case_prod_conv body cur)
    done
  show ?thesis
  proof (cases "?i < ?mx")
    case True
    then show ?thesis unfolding eq by simp
  next
    case False
    have "len \<le> ?mx" using assms(1) by (rule round_up_ge)
    with False have "\<And>i s. i \<in> set [?i..<?i + ?B] \<Longrightarrow> put_visit c kf p (\<lambda>_. t) len i s = Done s"
      by (simp add: put_visit_def)
    then have "fold_run (put_visit c kf p (\<lambda>_. t) len) [?i..<?i + ?B] s = Done s"
      by (rule fold_run_idle)
    with False show ?thesis unfolding eq by simp
  qed
qed

lemma launch_put_if_not_found_sorted:
  assumes "0 < bucket_size c" "bucket_size c dvd bd" "len \<le> n * bd"
    and "\<forall>j<len. start j = Some (kf j)" and "\<forall>j<len. it j = Some (p j)"
    and "inj_on p {..<len}"
  shows "launch n bd (bucket_size c) (put_if_not_found_sorted c start len it) (R, rows)
         = fold_run (put_first c kf p (tile_of n bd (bucket_size c)) R) [0..<len] (R, rows)"
proof -
  let ?B = "bucket_size c"
  have mx: "((len + ?B - 1) div ?B) * ?B \<le> n * bd"
    using assms(1) _ assms(3) by (rule round_up_le) (simp add: assms(2))
  have "launch n bd ?B (put_if_not_found_sorted c start len it) (R, rows)
        = fold_run (\<lambda>i. put_visit c kf p (\<lambda>_. tile_of n bd ?B i) len i) [0..<n * bd] (R, rows)"
  proof (rule launch_positions [OF assms(1,2)])
    fix t :: tile and s :: "(nat \<Rightarrow> Result) \<times> store"
    assume g: "gridDim t = n" "blockDim t = bd"
    show "put_if_not_found_sorted c start len it t s
          = fold_run (put_visit c kf p (\<lambda>_. t) len) [tile_index t ?B 0..<tile_index t ?B 0 + ?B] s"
      by (rule put_tile_once [OF assms(1) _ assms(4,5,6)]) (unfold g, rule mx)
  qed
  also have "\<dots> = fold_run (put_visit c kf p (tile_of n bd ?B) len) [0..<len] (R, rows)"
    by (rule fold_run_upto [OF assms(3)]) (simp_all add: put_visit_tile, simp add: put_visit_def)
  also have "\<dots> = fold_run (\<lambda>i s. if i < len then put_first c kf p (tile_of n bd ?B) R i s else Done s)
                      [0..<len] (R, rows)"
    by (rule put_visit_fixed [OF assms(6)]) simp_all
  also have "\<dots> = fold_run (put_first c kf p (tile_of n bd ?B) R) [0..<len] (R, rows)"
    by (rule fold_run_cong) simp
  finally show ?thesis .
qed


end
